theory Spec2Isabelle
  imports Main
begin

section \<open>Data model\<close>

text \<open>
  The node's JSON objects, with the field types the validators insist on. Amounts, indices,
  times and nonces are JavaScript numbers holding integers; they are modelled as \<open>int\<close>,
  with \<open>Number.isSafeInteger\<close> written out where the source calls it and with the
  rounding of double arithmetic written out where the source adds or subtracts amounts.
\<close>

record txinput =
  i_hash :: string
  i_index :: int
  i_signature :: string

record txoutput =
  o_publicKey :: string
  o_amount :: int

record utxo =
  u_hash :: string
  u_index :: int
  u_publicKey :: string
  u_amount :: int

text \<open>
  A transaction object has the keys \<open>inputs, outputs, hash\<close>; a coinbase has the keys
  \<open>outputs, hash\<close>. \<open>Object.keys\<close> tells the two shapes apart.
\<close>

datatype tx =
  Tx (tx_inputs: "txinput list") (tx_outputs: "txoutput list") (tx_hash: string)
| Coinbase (cb_outputs: "txoutput list") (cb_hash: string)

record block =
  time :: int
  txs :: "tx list"
  nonce :: int
  hash :: string

section \<open>Work (work.js)\<close>

subsection \<open>nextDifficulty\<close>

definition adjust :: "int \<Rightarrow> int \<Rightarrow> int" where
  "adjust difficulty interval =
     (let d1 = (if interval < 5 then difficulty + 1
                else if interval > 20 then difficulty - 1
                else difficulty)
      in if d1 < 0 then 0 else if d1 > 256 then 256 else d1)"

definition nextDifficulty :: "block list \<Rightarrow> int" where
  "nextDifficulty chain =
     fold (\<lambda>i difficulty. adjust difficulty (time (chain ! i) - time (chain ! (i - 1))))
       [1 ..< length chain] 0"

text \<open>The schedule as the specification words it: an accumulator over the block intervals.\<close>

definition intervals :: "block list \<Rightarrow> int list" where
  "intervals chain = map (\<lambda>(a, b). time b - time a) (zip chain (tl chain))"

definition clamp256 :: "int \<Rightarrow> int" where
  "clamp256 d = max 0 (min 256 d)"

definition spec_step :: "int \<Rightarrow> int \<Rightarrow> int" where
  "spec_step d iv = clamp256 (d + (if iv < 5 then 1 else if iv > 20 then - 1 else 0))"

definition spec_nextDifficulty :: "block list \<Rightarrow> int" where
  "spec_nextDifficulty chain = foldl spec_step 0 (intervals chain)"

subsection \<open>blockDifficulty\<close>

text \<open>\<open>Number.parseInt(c, 16)\<close> on a string of at most one character; \<open>None\<close> is NaN.\<close>

definition parseInt16 :: "string \<Rightarrow> nat option" where
  "parseInt16 s =
     (case s of
        [c] \<Rightarrow>
          (case map_of (zip ''0123456789abcdef'' [0 ..< 16]) c of
             Some v \<Rightarrow> Some v
           | None \<Rightarrow> map_of (zip ''ABCDEF'' [10 ..< 16]) c)
      | _ \<Rightarrow> None)"

text \<open>\<open>String.prototype.charAt\<close>: the empty string beyond the end.\<close>

definition charAt :: "string \<Rightarrow> nat \<Rightarrow> string" where
  "charAt s i = (if i < length s then [s ! i] else [])"

text \<open>\<open>n.toString(2)\<close> for a non-negative integer, and \<open>NaN.toString(2)\<close>.\<close>

fun toString2 :: "nat \<Rightarrow> string" where
  "toString2 n =
     (if n < 2 then (if n = 0 then ''0'' else ''1'')
      else toString2 (n div 2) @ (if n mod 2 = 0 then ''0'' else ''1''))"

definition numToString2 :: "nat option \<Rightarrow> string" where
  "numToString2 n = (case n of None \<Rightarrow> ''NaN'' | Some v \<Rightarrow> toString2 v)"

text \<open>\<open>s.substr(-4)\<close>: the last four characters.\<close>

definition substr_last4 :: "string \<Rightarrow> string" where
  "substr_last4 s = drop (length s - 4) s"

text \<open>\<open>('0000' + nibble.toString(2)).substr(-4)\<close> for the character \<open>s\<close>.\<close>

definition encode :: "string \<Rightarrow> string" where
  "encode s = substr_last4 (''0000'' @ numToString2 (parseInt16 s))"

definition binaryOf :: "string \<Rightarrow> string" where
  "binaryOf h = fold (\<lambda>i binary. binary @ encode (charAt h i)) [0 ..< 64] []"

text \<open>\<open>binary.indexOf('1')\<close>: the position of the first occurrence, or -1.\<close>

fun indexOf :: "string \<Rightarrow> char \<Rightarrow> int" where
  "indexOf [] c = - 1"
| "indexOf (x # xs) c =
     (if x = c then 0 else (let r = indexOf xs c in if r < 0 then - 1 else r + 1))"

definition blockDifficulty :: "block \<Rightarrow> int" where
  "blockDifficulty b = indexOf (binaryOf (hash b)) (CHR ''1'')"

text \<open>
  The specification's wording: the number of leading zero bits of the hexadecimal-to-binary
  expansion of a hash of lowercase hexadecimal characters.
\<close>

definition is_hex :: "char \<Rightarrow> bool" where
  "is_hex c = (c \<in> set ''0123456789abcdef'')"

definition hex_value :: "char \<Rightarrow> nat" where
  "hex_value c = (case parseInt16 [c] of Some v \<Rightarrow> v | None \<Rightarrow> 0)"

definition nibble_bits :: "nat \<Rightarrow> bool list" where
  "nibble_bits n = [bit n 3, bit n 2, bit n 1, bit n 0]"

definition expansion :: "string \<Rightarrow> bool list" where
  "expansion h = concat (map (\<lambda>c. nibble_bits (hex_value c)) h)"

definition leading_zero_bits :: "string \<Rightarrow> nat" where
  "leading_zero_bits h = length (takeWhile Not (expansion h))"

definition bitchar :: "bool \<Rightarrow> char" where
  "bitchar b = (if b then CHR ''1'' else CHR ''0'')"

definition zero_hash :: string where
  "zero_hash = replicate 64 (CHR ''0'')"


subsection \<open>chainDifficulty\<close>

text \<open>
  \<open>chainDifficulty\<close> adds \<open>Math.pow(2, blockDifficulty(block))\<close> in double precision.
  \<open>blockDifficulty\<close> is at least -1, so every summand and every sum is a non-negative
  multiple of 1/2: a number is represented by its count of halves, a \<open>nat\<close>. An array
  holds fewer than \<open>2^32\<close> blocks, so no sum reaches \<open>2^1024\<close> and the only effect of
  the double format is rounding to 53 significant bits, to nearest, ties to even.
\<close>

fun bitlen :: "nat \<Rightarrow> nat" where
  "bitlen n = (if n = 0 then 0 else Suc (bitlen (n div 2)))"

definition round53 :: "nat \<Rightarrow> nat" where
  "round53 s =
     (if bitlen s \<le> 53 then s
      else
        (let k = bitlen s - 53; q = s div 2 ^ k; r = s mod 2 ^ k
         in if 2 * r > 2 ^ k \<or> (2 * r = 2 ^ k \<and> odd q) then (q + 1) * 2 ^ k else q * 2 ^ k))"

text \<open>\<open>Math.pow(2, d)\<close> in halves, for \<open>d \<ge> -1\<close>.\<close>

definition pow2 :: "int \<Rightarrow> nat" where
  "pow2 d = 2 ^ nat (d + 1)"

definition chainDifficulty :: "block list \<Rightarrow> nat" where
  "chainDifficulty chain =
     fold (\<lambda>block cumulative. round53 (cumulative + pow2 (blockDifficulty block))) chain 0"

text \<open>The double subtraction \<open>a - b\<close>, in halves.\<close>

definition fsub :: "nat \<Rightarrow> nat \<Rightarrow> int" where
  "fsub a b = (if b \<le> a then int (round53 (a - b)) else - int (round53 (b - a)))"

subsection \<open>Sums of amounts\<close>

text \<open>
  Amounts and counts are doubles that hold integers, and the code adds and subtracts them
  as doubles: the result of \<open>x + y\<close> is the double nearest to the exact sum, ties to
  even. \<open>fl\<close> is that rounding on the integers (below \<open>2^53\<close> in absolute value it
  changes nothing). The length of an array is below \<open>2^32\<close>, so \<open>1 + tx.inputs.length\<close>
  is exact.
\<close>

definition fl :: "int \<Rightarrow> int" where
  "fl x = (if 0 \<le> x then int (round53 (nat x)) else - int (round53 (nat (- x))))"

section \<open>Errors and the cryptographic collaborators\<close>

datatype error =
  BadStructure | BadInputsArray | BadOutputsArray | BadInputHash | BadInputIndex
| UTXONotFound | UTXOAlreadyUsed | BadPublicKeyString | BadPublicKey | BadAmount
| BadNet | BadTxHash | BadSignatureString | BadSignature
| BadCoinbaseStructure | BadCoinbaseOutputs | BadCoinbaseAmount | BadCoinbaseHash
| BadTimeInteger | BadTxsArray | BadNonceInteger | BadHashString | BadTime | BadBlockHash
| NotEnoughDifficulty | BadTransaction | AmountZeroAfterFees | TypeError | LibraryError

text \<open>
  SHA-256 and secp256k1 are black boxes. Each hashed payload is a fixed JSON shape, so a
  digest is a function of the fields that are serialised:
  \<^item> \<open>sha_tx inputs outputs\<close> is \<open>SHA256(JSON.stringify({inputs, outputs}))\<close>, the inputs
    without signatures;
  \<^item> \<open>sha_coinbase t outputs\<close> is \<open>SHA256(t + JSON.stringify({outputs}))\<close>;
  \<^item> \<open>sha_block prev t txs n\<close> is \<open>SHA256(prev + JSON.stringify({time, txs, nonce}))\<close>;
  \<^item> \<open>getPublic k\<close> is \<open>keyFromPublic(k, 'hex').getPublic(true, 'hex')\<close>, \<open>None\<close> when the
    library throws;
  \<^item> \<open>verify k msg sig\<close> is \<open>keyFromPublic(k, 'hex').verify(msg, sig)\<close>, \<open>None\<close> when the
    library throws;
  \<^item> \<open>wallet_publicKey\<close> and \<open>wallet_sign\<close> are the wallet's key pair.
\<close>

record crypto =
  sha_tx :: "(string \<times> int) list \<Rightarrow> txoutput list \<Rightarrow> string"
  sha_coinbase :: "int \<Rightarrow> txoutput list \<Rightarrow> string"
  sha_block :: "string \<Rightarrow> int \<Rightarrow> tx list \<Rightarrow> int \<Rightarrow> string"
  getPublic :: "string \<Rightarrow> string option"
  verify :: "string \<Rightarrow> string \<Rightarrow> string \<Rightarrow> bool option"
  genesisTxPublicKey :: string
  wallet_publicKey :: string
  wallet_sign :: "string \<Rightarrow> string"

definition isSafeInteger :: "int \<Rightarrow> bool" where
  "isSafeInteger n = (- (2 ^ 53 - 1) \<le> n \<and> n \<le> 2 ^ 53 - 1)"

text \<open>The test \<open>/^[0-9a-f]{lo,hi}$/\<close>.\<close>

definition hex_string :: "nat \<Rightarrow> nat \<Rightarrow> string \<Rightarrow> bool" where
  "hex_string lo hi s = (lo \<le> length s \<and> length s \<le> hi \<and> list_all is_hex s)"

text \<open>\<open>Array.prototype.findIndex\<close>; \<open>None\<close> is -1.\<close>

fun findIndex :: "('a \<Rightarrow> bool) \<Rightarrow> 'a list \<Rightarrow> nat option" where
  "findIndex P [] = None"
| "findIndex P (x # xs) = (if P x then Some 0 else map_option Suc (findIndex P xs))"

text \<open>\<open>xs.splice(i, 1)\<close>: removes the element at \<open>i\<close>, nothing when \<open>i\<close> is past the end.\<close>

definition splice1 :: "nat \<Rightarrow> 'a list \<Rightarrow> 'a list" where
  "splice1 i xs = take i xs @ drop (Suc i) xs"

section \<open>Transaction validator (txs.js)\<close>

definition refers :: "txinput \<Rightarrow> utxo \<Rightarrow> bool" where
  "refers inp U = (u_hash U = i_hash inp \<and> u_index U = i_index inp)"

text \<open>The loop over \<open>tx.inputs\<close>, with \<open>inputUTXOIndexes\<close>, \<open>net\<close> and \<open>validated.inputs\<close>.\<close>

fun addTx_inputs ::
  "utxo list \<Rightarrow> txinput list \<Rightarrow> nat list \<times> int \<times> (string \<times> int) list
     \<Rightarrow> error + nat list \<times> int \<times> (string \<times> int) list" where
  "addTx_inputs UTXOs [] acc = Inr acc"
| "addTx_inputs UTXOs (inp # rest) (inputUTXOIndexes, net, vinputs) =
     (if \<not> hex_string 64 64 (i_hash inp) then Inl BadInputHash
      else if \<not> isSafeInteger (i_index inp) \<or> i_index inp < 0 \<or> i_index inp > 1
        then Inl BadInputIndex
      else
        (case findIndex (refers inp) UTXOs of
           None \<Rightarrow> Inl UTXONotFound
         | Some UTXOIndex \<Rightarrow>
             if UTXOIndex \<in> set inputUTXOIndexes then Inl UTXOAlreadyUsed
             else addTx_inputs UTXOs rest
                    (inputUTXOIndexes @ [UTXOIndex],
                     fl (net + u_amount (UTXOs ! UTXOIndex)),
                     vinputs @ [(i_hash inp, i_index inp)])))"

text \<open>The loop over \<open>tx.outputs\<close>, with \<open>net\<close> and \<open>validated.outputs\<close>.\<close>

fun addTx_outputs ::
  "crypto \<Rightarrow> txoutput list \<Rightarrow> int \<times> txoutput list \<Rightarrow> error + int \<times> txoutput list" where
  "addTx_outputs cr [] acc = Inr acc"
| "addTx_outputs cr (out # rest) (net, voutputs) =
     (if \<not> hex_string 66 66 (o_publicKey out) then Inl BadPublicKeyString
      else
        (case getPublic cr (o_publicKey out) of
           None \<Rightarrow> Inl LibraryError
         | Some k \<Rightarrow>
             if o_publicKey out \<noteq> k then Inl BadPublicKey
             else if \<not> isSafeInteger (o_amount out) \<or> o_amount out < 2 then Inl BadAmount
             else addTx_outputs cr rest
                    (fl (net - o_amount out),
                     voutputs @ [\<lparr>o_publicKey = o_publicKey out, o_amount = o_amount out\<rparr>])))"

text \<open>The loop over the signatures: input \<open>i\<close> is checked against \<open>UTXOs[inputUTXOIndexes[i]]\<close>.\<close>

fun addTx_signatures ::
  "crypto \<Rightarrow> utxo list \<Rightarrow> string \<Rightarrow> (txinput \<times> nat) list \<Rightarrow> txinput list
     \<Rightarrow> error + txinput list" where
  "addTx_signatures cr UTXOs h [] vinputs = Inr vinputs"
| "addTx_signatures cr UTXOs h ((inp, UTXOIndex) # rest) vinputs =
     (if \<not> hex_string 20 144 (i_signature inp) then Inl BadSignatureString
      else
        (case verify cr (u_publicKey (UTXOs ! UTXOIndex)) h (i_signature inp) of
           None \<Rightarrow> Inl LibraryError
         | Some ok \<Rightarrow>
             if \<not> ok then Inl BadSignature
             else addTx_signatures cr UTXOs h rest
                    (vinputs @ [\<lparr>i_hash = i_hash inp, i_index = i_index inp,
                                 i_signature = i_signature inp\<rparr>])))"

text \<open>
  Everything \<open>addTx\<close> does before its \<open>// OK\<close> line: the rebuilt transaction and the
  positions of the spent UTXOs, or the error thrown.
\<close>

definition addTx_validate :: "crypto \<Rightarrow> tx \<Rightarrow> utxo list \<Rightarrow> error + tx \<times> nat list" where
  "addTx_validate cr tx UTXOs =
     (case tx of
        Coinbase _ _ \<Rightarrow> Inl BadStructure
      | Tx inputs outputs h \<Rightarrow>
          if length inputs < 1 then Inl BadInputsArray
          else if length outputs < 1 \<or> length outputs > 2 then Inl BadOutputsArray
          else
            (case addTx_inputs UTXOs inputs ([], 0, []) of
               Inl e \<Rightarrow> Inl e
             | Inr (inputUTXOIndexes, net1, vinputs) \<Rightarrow>
                 (case addTx_outputs cr outputs (net1, []) of
                    Inl e \<Rightarrow> Inl e
                  | Inr (net, voutputs) \<Rightarrow>
                      if net \<noteq> 1 + int (length inputs) then Inl BadNet
                      else if h \<noteq> sha_tx cr vinputs voutputs then Inl BadTxHash
                      else
                        (case addTx_signatures cr UTXOs h (zip inputs inputUTXOIndexes) [] of
                           Inl e \<Rightarrow> Inl e
                         | Inr sinputs \<Rightarrow> Inr (Tx sinputs voutputs h, inputUTXOIndexes)))))"

definition newUTXOs :: "string \<Rightarrow> txoutput list \<Rightarrow> utxo list" where
  "newUTXOs h outputs =
     map (\<lambda>i. \<lparr>u_hash = h, u_index = int i, u_publicKey = o_publicKey (outputs ! i),
               u_amount = o_amount (outputs ! i)\<rparr>) [0 ..< length outputs]"

text \<open>
  \<open>addTx(tx, block, UTXOs)\<close> mutates \<open>block.txs\<close> and \<open>UTXOs\<close> in place: the model returns
  the outcome together with both arrays as the call leaves them. The spent UTXOs are removed
  by \<open>for (const i of inputUTXOIndexes) UTXOs.splice(i, 1)\<close>, one position after the other
  on the array as it then is.
\<close>

definition addTx ::
  "crypto \<Rightarrow> tx \<Rightarrow> tx list \<Rightarrow> utxo list \<Rightarrow> (error + bool) \<times> tx list \<times> utxo list" where
  "addTx cr tx block_txs UTXOs =
     (case addTx_validate cr tx UTXOs of
        Inl e \<Rightarrow> (Inl e, block_txs, UTXOs)
      | Inr (validated, inputUTXOIndexes) \<Rightarrow>
          (Inr True,
           block_txs @ [validated],
           fold splice1 inputUTXOIndexes UTXOs
             @ newUTXOs (tx_hash validated) (tx_outputs validated)))"

text \<open>\<open>block.txs.reduce((count, tx) => count + tx.inputs.length, count)\<close>; a member
  without \<open>inputs\<close> raises a TypeError (\<open>None\<close>).\<close>

fun count_inputs :: "tx list \<Rightarrow> int \<Rightarrow> int option" where
  "count_inputs [] count = Some count"
| "count_inputs (Coinbase _ _ # rest) count = None"
| "count_inputs (Tx inputs _ _ # rest) count =
     count_inputs rest (fl (count + int (length inputs)))"

text \<open>\<open>addCoinbase(coinbase, block, UTXOs)\<close> reads \<open>block.time\<close> and \<open>block.txs\<close>.\<close>

definition addCoinbase ::
  "crypto \<Rightarrow> tx \<Rightarrow> int \<Rightarrow> tx list \<Rightarrow> utxo list \<Rightarrow> (error + unit) \<times> tx list \<times> utxo list" where
  "addCoinbase cr coinbase block_time block_txs UTXOs =
     (case coinbase of
        Tx _ _ _ \<Rightarrow> (Inl BadCoinbaseStructure, block_txs, UTXOs)
      | Coinbase outputs h \<Rightarrow>
          (case outputs of
             [out] \<Rightarrow>
               if \<not> hex_string 66 66 (o_publicKey out)
                 then (Inl BadPublicKeyString, block_txs, UTXOs)
               else
                 (case getPublic cr (o_publicKey out) of
                    None \<Rightarrow> (Inl LibraryError, block_txs, UTXOs)
                  | Some k \<Rightarrow>
                      if o_publicKey out \<noteq> k then (Inl BadPublicKey, block_txs, UTXOs)
                      else
                        (case count_inputs block_txs 0 of
                           None \<Rightarrow> (Inl TypeError, block_txs, UTXOs)
                         | Some c \<Rightarrow>
                             if o_amount out \<noteq> fl (10 + c)
                               then (Inl BadCoinbaseAmount, block_txs, UTXOs)
                             else
                               (let voutputs = [\<lparr>o_publicKey = o_publicKey out,
                                                  o_amount = o_amount out\<rparr>]
                                in if h \<noteq> sha_coinbase cr block_time voutputs
                                     then (Inl BadCoinbaseHash, block_txs, UTXOs)
                                   else
                                     (Inr (),
                                      block_txs @ [Coinbase voutputs h],
                                      UTXOs @ [\<lparr>u_hash = h, u_index = 0,
                                                 u_publicKey = o_publicKey out,
                                                 u_amount = o_amount out\<rparr>]))))
           | _ \<Rightarrow> (Inl BadCoinbaseOutputs, block_txs, UTXOs)))"

section \<open>Blocks and chains (blocks.js)\<close>

definition genesisTx :: "crypto \<Rightarrow> tx" where
  "genesisTx cr =
     (let outputs = [\<lparr>o_publicKey = genesisTxPublicKey cr, o_amount = 10\<rparr>]
      in Coinbase outputs (sha_coinbase cr 0 outputs))"

definition genesisBlock :: "crypto \<Rightarrow> block" where
  "genesisBlock cr =
     \<lparr>time = 0, txs = [genesisTx cr], nonce = 0,
      hash = sha_block cr [] 0 [genesisTx cr] 0\<rparr>"

definition genesisChain :: "crypto \<Rightarrow> block list" where
  "genesisChain cr = [genesisBlock cr]"

definition genesisUTXOs :: "crypto \<Rightarrow> utxo list" where
  "genesisUTXOs cr =
     [\<lparr>u_hash = cb_hash (genesisTx cr), u_index = 0,
       u_publicKey = genesisTxPublicKey cr, u_amount = 10\<rparr>]"

text \<open>The loop \<open>for (i = 0; i < block.txs.length - 1; i++) Txs.addTx(...)\<close> on the working
  block and the working UTXO copy; an exception ends it.\<close>

fun addTxs :: "crypto \<Rightarrow> tx list \<Rightarrow> tx list \<times> utxo list \<Rightarrow> error + tx list \<times> utxo list" where
  "addTxs cr [] acc = Inr acc"
| "addTxs cr (t # rest) (vtxs, vUTXOs) =
     (case addTx cr t vtxs vUTXOs of
        (Inl e, _) \<Rightarrow> Inl e
      | (Inr _, vtxs', vUTXOs') \<Rightarrow> addTxs cr rest (vtxs', vUTXOs'))"

text \<open>
  \<open>addBlock(block, chain, UTXOs)\<close> mutates \<open>chain\<close> and \<open>UTXOs\<close> in place: the model returns
  the outcome and both arrays as the call leaves them. \<open>now\<close> is \<open>Date.now()\<close>, in
  milliseconds; \<open>block.time > 10 + Date.now() / 1000\<close> is \<open>1000 * time > 10000 + now\<close>.
  An empty \<open>chain\<close> has no last block: reading \<open>prevBlock.time\<close> raises a TypeError.
\<close>

definition addBlock ::
  "crypto \<Rightarrow> int \<Rightarrow> block \<Rightarrow> block list \<Rightarrow> utxo list
     \<Rightarrow> (error + unit) \<times> block list \<times> utxo list" where
  "addBlock cr now block chain UTXOs =
     (if \<not> isSafeInteger (time block) \<or> time block < 0 then (Inl BadTimeInteger, chain, UTXOs)
      else if length (txs block) < 1 then (Inl BadTxsArray, chain, UTXOs)
      else if \<not> isSafeInteger (nonce block) \<or> nonce block < 0
        then (Inl BadNonceInteger, chain, UTXOs)
      else if \<not> hex_string 64 64 (hash block) then (Inl BadHashString, chain, UTXOs)
      else if chain = [] then (Inl TypeError, chain, UTXOs)
      else
        (let prevBlock = last chain in
         if time block \<le> time prevBlock \<or> 1000 * time block > 10000 + now
           then (Inl BadTime, chain, UTXOs)
         else
           (case addTxs cr (butlast (txs block)) ([], UTXOs) of
              Inl e \<Rightarrow> (Inl e, chain, UTXOs)
            | Inr (vtxs, vUTXOs) \<Rightarrow>
                (case addCoinbase cr (last (txs block)) (time block) vtxs vUTXOs of
                   (Inl e, _) \<Rightarrow> (Inl e, chain, UTXOs)
                 | (Inr _, vtxs', validatedUTXOs) \<Rightarrow>
                     if hash block
                          \<noteq> sha_block cr (hash prevBlock) (time block) vtxs' (nonce block)
                       then (Inl BadBlockHash, chain, UTXOs)
                     else if blockDifficulty block < nextDifficulty chain
                       then (Inl NotEnoughDifficulty, chain, UTXOs)
                     else
                       (Inr (),
                        chain @ [\<lparr>time = time block, txs = vtxs', nonce = nonce block,
                                   hash = hash block\<rparr>],
                        validatedUTXOs)))))"

text \<open>The node's state: \<open>exports.chain\<close> and \<open>exports.UTXOs\<close>.\<close>

record node =
  node_chain :: "block list"
  node_UTXOs :: "utxo list"

text \<open>The loop \<open>for (i = 1; i < chain.length; i++) addBlock(chain[i], validated, validatedUTXOs)\<close>.\<close>

fun addBlocks ::
  "crypto \<Rightarrow> int \<Rightarrow> block list \<Rightarrow> block list \<times> utxo list \<Rightarrow> error + block list \<times> utxo list" where
  "addBlocks cr now [] acc = Inr acc"
| "addBlocks cr now (b # rest) (validated, validatedUTXOs) =
     (case addBlock cr now b validated validatedUTXOs of
        (Inl e, _) \<Rightarrow> Inl e
      | (Inr _, validated', validatedUTXOs') \<Rightarrow>
          addBlocks cr now rest (validated', validatedUTXOs'))"

text \<open>
  \<open>swapChains(chain)\<close> returns the outcome and the node's state as the call leaves it. The
  clock is read once per call in the model.
\<close>

definition swapChains :: "crypto \<Rightarrow> int \<Rightarrow> block list \<Rightarrow> node \<Rightarrow> (error + int) \<times> node" where
  "swapChains cr now chain nd =
     (case addBlocks cr now (drop 1 chain) (genesisChain cr, genesisUTXOs cr) of
        Inl e \<Rightarrow> (Inl e, nd)
      | Inr (validated, validatedUTXOs) \<Rightarrow>
          (let increase = fsub (chainDifficulty validated) (chainDifficulty (node_chain nd))
           in (Inr increase,
               if increase > 0
               then \<lparr>node_chain = validated, node_UTXOs = validatedUTXOs\<rparr>
               else nd)))"

text \<open>
  The states a node goes through: it starts at genesis and changes only through \<open>addBlock\<close>
  on its own chain and UTXO set and through \<open>swapChains\<close>, with a clock that does not run
  backwards. \<open>reachable cr t nd\<close>: the node can be in state \<open>nd\<close> at clock reading \<open>t\<close>.
\<close>

inductive reachable :: "crypto \<Rightarrow> int \<Rightarrow> node \<Rightarrow> bool" for cr :: crypto where
  genesis: "reachable cr t \<lparr>node_chain = genesisChain cr, node_UTXOs = genesisUTXOs cr\<rparr>"
| later: "reachable cr t nd \<Longrightarrow> t \<le> t' \<Longrightarrow> reachable cr t' nd"
| block: "reachable cr t nd \<Longrightarrow>
     addBlock cr t b (node_chain nd) (node_UTXOs nd) = (r, chain', UTXOs') \<Longrightarrow>
     reachable cr t \<lparr>node_chain = chain', node_UTXOs = UTXOs'\<rparr>"
| swap: "reachable cr t nd \<Longrightarrow> swapChains cr t candidate nd = (r, nd') \<Longrightarrow> reachable cr t nd'"

section \<open>Pool (pool.js)\<close>

record pool =
  pool_txs :: "tx list"
  usedUTXOs :: "utxo list"

text \<open>
  \<open>pool.addTx\<close> hands \<open>Txs.addTx\<close>, which mutates the array it is given, the array
  \<open>UTXOs.slice()\<close>. Whether the caller's array is touched depends on which array that is,
  so here the arrays of UTXOs live in a store, addressed by position, and \<open>slice\<close>
  allocates.
\<close>

type_synonym store = "utxo list list"

definition slice :: "nat \<Rightarrow> store \<Rightarrow> nat \<times> store" where
  "slice a st = (length st, st @ [st ! a])"

text \<open>\<open>Txs.addTx\<close> on the array at address \<open>a\<close>.\<close>

definition addTx_at ::
  "crypto \<Rightarrow> tx \<Rightarrow> tx list \<Rightarrow> nat \<Rightarrow> store \<Rightarrow> (error + bool) \<times> tx list \<times> store" where
  "addTx_at cr tx block_txs a st =
     (case addTx cr tx block_txs (st ! a) of
        (r, block_txs', UTXOs') \<Rightarrow> (r, block_txs', st[a := UTXOs']))"

text \<open>
  The loop over \<open>tx.inputs\<close> in \<open>pool.addTx\<close>: \<open>Inr None\<close> is \<open>return false\<close>. An input
  without a UTXO cannot occur after \<open>Txs.addTx\<close> has accepted the transaction; the source
  would then read a field of \<open>undefined\<close>.
\<close>

fun pool_inputs ::
  "utxo list \<Rightarrow> utxo list \<Rightarrow> txinput list \<Rightarrow> utxo list \<Rightarrow> error + utxo list option" where
  "pool_inputs UTXOs used [] inputUTXOs = Inr (Some inputUTXOs)"
| "pool_inputs UTXOs used (inp # rest) inputUTXOs =
     (case find (refers inp) UTXOs of
        None \<Rightarrow> Inl TypeError
      | Some UTXO \<Rightarrow>
          (case find (\<lambda>u. u_hash u = u_hash UTXO \<and> u_index u = u_index UTXO) used of
             Some _ \<Rightarrow> Inr None
           | None \<Rightarrow> pool_inputs UTXOs used rest (inputUTXOs @ [UTXO])))"

text \<open>\<open>pool.addTx(tx, UTXOs)\<close>, with \<open>UTXOs\<close> the array at address \<open>a\<close> of the store.\<close>

definition pool_addTx ::
  "crypto \<Rightarrow> tx \<Rightarrow> nat \<Rightarrow> store \<Rightarrow> pool \<Rightarrow> (error + bool) \<times> pool \<times> store" where
  "pool_addTx cr tx a st p =
     (case slice a st of
        (copy, st1) \<Rightarrow>
          (case addTx_at cr tx [] copy st1 of
             (Inl e, _, st2) \<Rightarrow> (Inl e, p, st2)
           | (Inr ok, _, st2) \<Rightarrow>
               if \<not> ok then (Inl BadTransaction, p, st2)
               else
                 (case tx of
                    Coinbase _ _ \<Rightarrow> (Inl TypeError, p, st2)
                  | Tx inputs _ _ \<Rightarrow>
                      (case pool_inputs (st2 ! a) (usedUTXOs p) inputs [] of
                         Inl e \<Rightarrow> (Inl e, p, st2)
                       | Inr None \<Rightarrow> (Inr False, p, st2)
                       | Inr (Some inputUTXOs) \<Rightarrow>
                           (Inr True,
                            \<lparr>pool_txs = pool_txs p @ [tx],
                             usedUTXOs = usedUTXOs p @ inputUTXOs\<rparr>,
                            st2)))))"

text \<open>\<open>findTxIndex(UTXO)\<close>; \<open>Inr None\<close> is -1. A pool entry without \<open>inputs\<close> raises a
  TypeError when the loop reaches it.\<close>

fun findTxIndex_from :: "nat \<Rightarrow> tx list \<Rightarrow> utxo \<Rightarrow> error + nat option" where
  "findTxIndex_from i [] UTXO = Inr None"
| "findTxIndex_from i (Coinbase _ _ # rest) UTXO = Inl TypeError"
| "findTxIndex_from i (Tx inputs _ _ # rest) UTXO =
     (if list_ex (\<lambda>inp. i_hash inp = u_hash UTXO \<and> i_index inp = u_index UTXO) inputs
      then Inr (Some i)
      else findTxIndex_from (Suc i) rest UTXO)"

definition findTxIndex :: "pool \<Rightarrow> utxo \<Rightarrow> error + nat option" where
  "findTxIndex p UTXO = findTxIndex_from 0 (pool_txs p) UTXO"

text \<open>
  \<open>usedUTXOs.splice(removedUTXOIndex, 1)\<close> is given the result of \<open>usedUTXOs.find\<close>: a UTXO
  object or \<open>undefined\<close>. \<open>splice\<close> converts its first argument to an integer; both convert
  to NaN and so to 0.
\<close>

definition toIntegerOrInfinity :: "utxo option \<Rightarrow> nat" where
  "toIntegerOrInfinity v = 0"

definition release :: "txinput list \<Rightarrow> utxo list \<Rightarrow> utxo list" where
  "release removedInputs used =
     fold (\<lambda>removedInput used.
             (let removedUTXOIndex = find (refers removedInput) used
              in splice1 (toIntegerOrInfinity removedUTXOIndex) used))
       removedInputs used"

text \<open>The body of the loop over the inputs of one transaction of the block.\<close>

definition removeInput :: "txinput \<Rightarrow> pool \<Rightarrow> error + pool" where
  "removeInput inp p =
     (case find (refers inp) (usedUTXOs p) of
        None \<Rightarrow> Inr p
      | Some usedUTXO \<Rightarrow>
          (case findTxIndex p usedUTXO of
             Inl e \<Rightarrow> Inl e
           | Inr None \<Rightarrow> Inr p
           | Inr (Some removedTxIndex) \<Rightarrow>
               (case pool_txs p ! removedTxIndex of
                  Coinbase _ _ \<Rightarrow> Inl TypeError
                | Tx removedInputs _ _ \<Rightarrow>
                    Inr \<lparr>pool_txs = splice1 removedTxIndex (pool_txs p),
                         usedUTXOs = release removedInputs (usedUTXOs p)\<rparr>)))"

fun removeInputs :: "txinput list \<Rightarrow> pool \<Rightarrow> error + pool" where
  "removeInputs [] p = Inr p"
| "removeInputs (inp # rest) p =
     (case removeInput inp p of Inl e \<Rightarrow> Inl e | Inr p' \<Rightarrow> removeInputs rest p')"

text \<open>The loop over \<open>block.txs[0 .. length - 2]\<close>; a member without \<open>inputs\<close> raises a
  TypeError.\<close>

fun removeTxs :: "tx list \<Rightarrow> pool \<Rightarrow> error + pool" where
  "removeTxs [] p = Inr p"
| "removeTxs (Coinbase _ _ # rest) p = Inl TypeError"
| "removeTxs (Tx inputs _ _ # rest) p =
     (case removeInputs inputs p of Inl e \<Rightarrow> Inl e | Inr p' \<Rightarrow> removeTxs rest p')"

definition removeBlockTxs :: "block \<Rightarrow> pool \<Rightarrow> error + pool" where
  "removeBlockTxs block p = removeTxs (butlast (txs block)) p"

section \<open>Wallet (wallet.js)\<close>

text \<open>\<open>amountSent + 1 + tx.inputs.length\<close>, added from left to right.\<close>

definition target :: "int \<Rightarrow> nat \<Rightarrow> int" where
  "target amountSent n = fl (fl (amountSent + 1) + int n)"

text \<open>The loop that collects inputs until they cover the amount, the burn and the fees.\<close>

fun gather :: "int \<Rightarrow> utxo list \<Rightarrow> (string \<times> int) list \<times> int \<Rightarrow> (string \<times> int) list \<times> int" where
  "gather amountSent [] acc = acc"
| "gather amountSent (UTXO # rest) (inputs, amountInput) =
     (let inputs' = inputs @ [(u_hash UTXO, u_index UTXO)];
          amountInput' = fl (amountInput + u_amount UTXO)
      in if amountInput' \<ge> target amountSent (length inputs') then (inputs', amountInput')
         else gather amountSent rest (inputs', amountInput'))"

text \<open>\<open>amountInput - amountSent - 1 - tx.inputs.length\<close>, subtracted from left to right.\<close>

definition amountChange :: "int \<Rightarrow> int \<Rightarrow> nat \<Rightarrow> int" where
  "amountChange amountInput amountSent n = fl (fl (fl (amountInput - amountSent) - 1) - int n)"

text \<open>\<open>makeTx\<close>: \<open>Inr None\<close> is \<open>return false\<close>.\<close>

definition makeTx :: "crypto \<Rightarrow> int \<Rightarrow> string \<Rightarrow> utxo list \<Rightarrow> error + tx option" where
  "makeTx cr amountSent publicKey UTXOs =
     (if amountSent \<le> 2 then Inl AmountZeroAfterFees
      else
        (case gather amountSent (filter (\<lambda>UTXO. u_publicKey UTXO = wallet_publicKey cr) UTXOs)
                ([], 0) of
           (inputs, amountInput) \<Rightarrow>
             if amountInput < target amountSent (length inputs) then Inr None
             else
               (let change = amountChange amountInput amountSent (length inputs);
                    outputs = \<lparr>o_publicKey = publicKey, o_amount = amountSent\<rparr>
                      # (if change > 1
                         then [\<lparr>o_publicKey = wallet_publicKey cr, o_amount = change\<rparr>]
                         else []);
                    h = sha_tx cr inputs outputs
                in Inr (Some (Tx (map (\<lambda>(uh, ui). \<lparr>i_hash = uh, i_index = ui,
                                                     i_signature = wallet_sign cr h\<rparr>) inputs)
                                outputs h)))))"

section \<open>Concrete collaborators for evaluation\<close>

text \<open>
  A stand-in for SHA-256 and secp256k1 that lets the model run on concrete inputs: every
  digest is a fixed string of the right shape (the digest of a block with nonce 56 has 56
  leading zero bits, any other block digest has none), every key is in canonical form and
  every signature verifies. What the evaluations below show therefore does not come from a
  rejected hash, key or signature.
\<close>

definition hash56 :: string where
  "hash56 = replicate 14 (CHR ''0'') @ replicate 50 (CHR ''f'')"

definition demo :: crypto where
  "demo =
     \<lparr>sha_tx = (\<lambda>_ _. replicate 64 (CHR ''a'')),
      sha_coinbase = (\<lambda>_ _. replicate 64 (CHR ''b'')),
      sha_block = (\<lambda>_ _ _ n. if n = 56 then hash56 else replicate 64 (CHR ''f'')),
      getPublic = Some,
      verify = (\<lambda>_ _ _. Some True),
      genesisTxPublicKey = replicate 66 (CHR ''0''),
      wallet_publicKey = replicate 66 (CHR ''1''),
      wallet_sign = (\<lambda>_. replicate 20 (CHR ''0''))\<rparr>"

text \<open>Keys, UTXOs, transactions and blocks for the evaluations.\<close>

definition key1 :: string where
  "key1 = replicate 66 (CHR ''1'')"

definition key2 :: string where
  "key2 = replicate 66 (CHR ''2'')"

definition utxoA :: utxo where
  "utxoA = \<lparr>u_hash = replicate 64 (CHR ''1''), u_index = 0, u_publicKey = key1, u_amount = 5\<rparr>"

definition utxoB :: utxo where
  "utxoB = \<lparr>u_hash = replicate 64 (CHR ''2''), u_index = 0, u_publicKey = key1, u_amount = 5\<rparr>"

definition utxoC :: utxo where
  "utxoC = \<lparr>u_hash = replicate 64 (CHR ''3''), u_index = 0, u_publicKey = key2, u_amount = 7\<rparr>"

definition utxoD :: utxo where
  "utxoD = \<lparr>u_hash = replicate 64 (CHR ''4''), u_index = 0, u_publicKey = key1, u_amount = 6\<rparr>"

definition spend :: "utxo \<Rightarrow> txinput" where
  "spend U = \<lparr>i_hash = u_hash U, i_index = u_index U, i_signature = replicate 20 (CHR ''0'')\<rparr>"

definition pay :: "string \<Rightarrow> int \<Rightarrow> txoutput" where
  "pay k n = \<lparr>o_publicKey = k, o_amount = n\<rparr>"

definition digestA :: string where
  "digestA = replicate 64 (CHR ''a'')"

text \<open>\<open>txA\<close> and \<open>txA'\<close> both spend \<open>utxoA\<close>; \<open>txB\<close> spends \<open>utxoB\<close>; \<open>txAB\<close> spends both;
  \<open>txD\<close> is what the wallet builds to send 3 out of \<open>utxoD\<close>.\<close>

definition txA :: tx where
  "txA = Tx [spend utxoA] [pay key2 3] digestA"

definition txA' :: tx where
  "txA' = Tx [spend utxoA] [pay key1 3] digestA"

definition txB :: tx where
  "txB = Tx [spend utxoB] [pay key2 3] digestA"

definition txAB :: tx where
  "txAB = Tx [spend utxoA, spend utxoB] [pay key2 7] digestA"

definition txD :: tx where
  "txD = Tx [spend utxoD] [pay key2 3] digestA"

definition reward :: "int \<Rightarrow> tx" where
  "reward n = Coinbase [pay key1 n] (replicate 64 (CHR ''b''))"

definition block56 :: block where
  "block56 = \<lparr>time = 5, txs = [reward 10], nonce = 56, hash = hash56\<rparr>"

definition block56b :: block where
  "block56b = \<lparr>time = 6, txs = [reward 10], nonce = 56, hash = hash56\<rparr>"

definition blockF :: block where
  "blockF = \<lparr>time = 6, txs = [reward 10], nonce = 0, hash = replicate 64 (CHR ''f'')\<rparr>"

definition blockB :: block where
  "blockB = \<lparr>time = 6, txs = [txB, reward 11], nonce = 0, hash = replicate 64 (CHR ''f'')\<rparr>"

definition badBlock :: block where
  "badBlock = \<lparr>time = - 1, txs = [reward 10], nonce = 0, hash = replicate 64 (CHR ''f'')\<rparr>"

definition genesisNode :: "crypto \<Rightarrow> node" where
  "genesisNode cr = \<lparr>node_chain = genesisChain cr, node_UTXOs = genesisUTXOs cr\<rparr>"

definition emptyPool :: pool where
  "emptyPool = \<lparr>pool_txs = [], usedUTXOs = []\<rparr>"

definition poolA :: pool where
  "poolA = \<lparr>pool_txs = [txA], usedUTXOs = [utxoA]\<rparr>"

definition poolAB :: pool where
  "poolAB = \<lparr>pool_txs = [txA, txB], usedUTXOs = [utxoA, utxoB]\<rparr>"

definition confirmed :: "utxo list" where
  "confirmed = [utxoA, utxoB, utxoC]"

text \<open>The UTXO of \<open>reward 10\<close>, and the chain and UTXO set that \<open>swapChains\<close> builds from
  genesis and \<open>block56\<close>.\<close>

definition utxoR :: utxo where
  "utxoR = \<lparr>u_hash = replicate 64 (CHR ''b''), u_index = 0, u_publicKey = key1, u_amount = 10\<rparr>"

definition heavyChain :: "block list" where
  "heavyChain = genesisChain demo @ [block56]"

definition heavyUTXOs :: "utxo list" where
  "heavyUTXOs = genesisUTXOs demo @ [utxoR]"

section \<open>Predicates of the properties\<close>

text \<open>A pool claims an input when \<open>usedUTXOs\<close> holds an entry with its (hash, index).\<close>

definition claimed :: "pool \<Rightarrow> txinput \<Rightarrow> bool" where
  "claimed p inp = list_ex (refers inp) (usedUTXOs p)"

text \<open>Two inputs that reference the same UTXO.\<close>

definition same_ref :: "txinput \<Rightarrow> txinput \<Rightarrow> bool" where
  "same_ref i j = (i_hash i = i_hash j \<and> i_index i = i_index j)"

text \<open>The UTXOs that the inputs reference, in the order of the inputs.\<close>

definition referenced :: "utxo list \<Rightarrow> txinput list \<Rightarrow> utxo list" where
  "referenced UTXOs inputs = List.map_filter (\<lambda>inp. find (refers inp) UTXOs) inputs"

text \<open>The key of a UTXO, and the input that spends a UTXO with signature \<open>s\<close>.\<close>

definition utxo_key :: "utxo \<Rightarrow> string \<times> int" where
  "utxo_key U = (u_hash U, u_index U)"

definition signed_input :: "string \<Rightarrow> utxo \<Rightarrow> txinput" where
  "signed_input s U = \<lparr>i_hash = u_hash U, i_index = u_index U, i_signature = s\<rparr>"

text \<open>A UTXO set as the data model has it: uniquely keyed by (hash, index), outputs of
  validated transactions (indices 0 or 1, 64-character hashes, safe-integer amounts).\<close>

definition wellformed :: "utxo list \<Rightarrow> bool" where
  "wellformed UTXOs =
     (distinct (map utxo_key UTXOs) \<and>
      list_all (\<lambda>U. hex_string 64 64 (u_hash U) \<and> (u_index U = 0 \<or> u_index U = 1) \<and>
                     isSafeInteger (u_amount U)) UTXOs)"

text \<open>Non-negative amounts whose sum is a safe integer: every sum of amounts that the code
  forms over such a UTXO set is exact.\<close>

definition safe_total :: "utxo list \<Rightarrow> bool" where
  "safe_total UTXOs =
     (list_all (\<lambda>U. 0 \<le> u_amount U) UTXOs \<and> sum_list (map u_amount UTXOs) \<le> 2 ^ 53 - 1)"

text \<open>What the black boxes are relied on for: the recipient's and the wallet's keys are in
  canonical compressed form, and a signature by the wallet is well-formed and verifies
  against the wallet's public key.\<close>

definition honest :: "crypto \<Rightarrow> string \<Rightarrow> bool" where
  "honest cr publicKey =
     (hex_string 66 66 publicKey \<and> getPublic cr publicKey = Some publicKey \<and>
      hex_string 66 66 (wallet_publicKey cr) \<and>
      getPublic cr (wallet_publicKey cr) = Some (wallet_publicKey cr) \<and>
      (\<forall>h. hex_string 20 144 (wallet_sign cr h) \<and>
           verify cr (wallet_publicKey cr) h (wallet_sign cr h) = Some True))"

text \<open>\<open>amountChange\<close> as \<open>makeTx\<close> computes it.\<close>

definition makeTx_change :: "crypto \<Rightarrow> int \<Rightarrow> utxo list \<Rightarrow> int" where
  "makeTx_change cr amountSent UTXOs =
     (case gather amountSent (filter (\<lambda>UTXO. u_publicKey UTXO = wallet_publicKey cr) UTXOs)
             ([], 0) of
        (inputs, amountInput) \<Rightarrow> amountChange amountInput amountSent (length inputs))"

text \<open>A count of halves that a double holds exactly: at most 53 significant bits.\<close>

definition representable :: "nat \<Rightarrow> bool" where
  "representable a = (bitlen a \<le> 53 \<or> 2 ^ (bitlen a - 53) dvd a)"

text \<open>A node state that \<open>swapChains\<close> rebuilds from genesis to itself at clock reading \<open>t\<close>.\<close>

definition replays :: "crypto \<Rightarrow> int \<Rightarrow> node \<Rightarrow> bool" where
  "replays cr t nd =
     (node_chain nd \<noteq> [] \<and>
      addBlocks cr t (tl (node_chain nd)) (genesisChain cr, genesisUTXOs cr)
        = Inr (node_chain nd, node_UTXOs nd))"

section \<open>Difficulty schedule\<close>

lemma fold_adjust_range:
  "0 \<le> d \<Longrightarrow> d \<le> 256 \<Longrightarrow>
   0 \<le> fold (\<lambda>i difficulty. adjust difficulty (f i)) ns d \<and>
   fold (\<lambda>i difficulty. adjust difficulty (f i)) ns d \<le> 256"
  by (induction ns arbitrary: d) (auto simp: adjust_def Let_def)

lemma nextDifficulty_range: "0 \<le> nextDifficulty chain \<and> nextDifficulty chain \<le> 256"
  unfolding nextDifficulty_def by (rule fold_adjust_range) simp_all

lemma adjust_spec_step: "adjust d iv = spec_step d iv"
  by (simp add: adjust_def spec_step_def clamp256_def Let_def)

lemma intervals_nth:
  "intervals chain = map (\<lambda>i. time (chain ! i) - time (chain ! (i - 1))) [1 ..< length chain]"
  by (rule nth_equalityI) (auto simp: intervals_def nth_tl)

lemma fold_adjust_foldl:
  "fold (\<lambda>i d. adjust d (f i)) ns d0 = foldl spec_step d0 (map f ns)"
  by (induction ns arbitrary: d0) (simp_all add: adjust_spec_step)

text \<open>
  C8. \<open>nextDifficulty\<close> is the accumulator of the specification: it starts at 0, goes over
  the consecutive block intervals, adds 1 for an interval below 5 seconds, subtracts 1 for
  one above 20 seconds, and is clamped to [0, 256] after each step. Its value lies in
  [0, 256] for every chain and for every prefix of it.
\<close>

theorem nextDifficulty_clamped:
  "nextDifficulty chain = spec_nextDifficulty chain \<and>
   (\<forall>n. 0 \<le> nextDifficulty (take n chain) \<and> nextDifficulty (take n chain) \<le> 256)"
  by (simp add: nextDifficulty_range)
     (simp add: nextDifficulty_def spec_nextDifficulty_def intervals_nth fold_adjust_foldl)

section \<open>Failed validation\<close>

lemma addTx_failure:
  "fst (addTx cr tx block_txs UTXOs) = Inl e \<Longrightarrow>
   snd (addTx cr tx block_txs UTXOs) = (block_txs, UTXOs)"
  by (auto simp: addTx_def split: sum.splits prod.splits)

lemma addBlock_failure:
  "fst (addBlock cr now b chain UTXOs) = Inl e \<Longrightarrow>
   snd (addBlock cr now b chain UTXOs) = (chain, UTXOs)"
  by (auto simp: addBlock_def Let_def split: sum.splits prod.splits if_splits)

lemma swapChains_failure:
  "fst (swapChains cr now candidate nd) = Inl e \<Longrightarrow> snd (swapChains cr now candidate nd) = nd"
  by (auto simp: swapChains_def Let_def split: sum.splits prod.splits if_splits)

text \<open>
  C3. When validation fails, whatever the error, \<open>addTx\<close> leaves the block and the UTXO
  set it was given as they were, \<open>addBlock\<close> leaves the chain and the UTXO set it was given
  as they were, and \<open>swapChains\<close> leaves the node's chain and UTXO set as they were.
\<close>

theorem failed_validation_keeps_state:
  "(fst (addTx cr tx block_txs UTXOs) = Inl e1 \<longrightarrow>
      snd (addTx cr tx block_txs UTXOs) = (block_txs, UTXOs)) \<and>
   (fst (addBlock cr now b chain UTXOs') = Inl e2 \<longrightarrow>
      snd (addBlock cr now b chain UTXOs') = (chain, UTXOs')) \<and>
   (fst (swapChains cr now candidate nd) = Inl e3 \<longrightarrow>
      snd (swapChains cr now candidate nd) = nd)"
  using addTx_failure addBlock_failure swapChains_failure by blast

theorem failed_validation_keeps_state_witness:
  "fst (addTx demo (reward 10) [txA] [utxoA]) = Inl BadStructure \<and>
   snd (addTx demo (reward 10) [txA] [utxoA]) = ([txA], [utxoA]) \<and>
   fst (addBlock demo 0 badBlock (genesisChain demo) (genesisUTXOs demo)) = Inl BadTimeInteger \<and>
   snd (addBlock demo 0 badBlock (genesisChain demo) (genesisUTXOs demo))
     = (genesisChain demo, genesisUTXOs demo) \<and>
   fst (swapChains demo 0 [genesisBlock demo, badBlock] (genesisNode demo)) = Inl BadTimeInteger \<and>
   snd (swapChains demo 0 [genesisBlock demo, badBlock] (genesisNode demo)) = genesisNode demo"
proof -
  have 1: "fst (addTx demo (reward 10) [txA] [utxoA]) = Inl BadStructure"
    by (simp add: addTx_def addTx_validate_def reward_def)
  have 2: "fst (addBlock demo 0 badBlock (genesisChain demo) (genesisUTXOs demo))
             = Inl BadTimeInteger"
    by (simp add: addBlock_def badBlock_def)
  have 3: "fst (swapChains demo 0 [genesisBlock demo, badBlock] (genesisNode demo))
             = Inl BadTimeInteger"
    by (simp add: swapChains_def addBlock_def badBlock_def)
  from 1 2 3
    failed_validation_keeps_state [of demo "reward 10" "[txA]" "[utxoA]" BadStructure 0 badBlock
      "genesisChain demo" "genesisUTXOs demo" BadTimeInteger "[genesisBlock demo, badBlock]"
      "genesisNode demo" BadTimeInteger]
  show ?thesis by simp
qed

section \<open>Pool admission\<close>

lemma findIndex_find: "findIndex P xs = Some i \<Longrightarrow> find P xs = Some (xs ! i) \<and> i < length xs"
  by (induction xs arbitrary: i) (auto split: if_splits)

lemma findIndex_None_find: "findIndex P xs = None \<longleftrightarrow> find P xs = None"
  by (induction xs) auto

lemma addTx_inputs_found:
  "addTx_inputs UTXOs inputs acc = Inr r \<Longrightarrow> inp \<in> set inputs \<Longrightarrow> find (refers inp) UTXOs \<noteq> None"
proof (induction UTXOs inputs acc rule: addTx_inputs.induct)
  case (1 UTXOs acc)
  then show ?case by simp
next
  case (2 UTXOs i rest idxs net vin)
  then show ?case
    by (auto split: if_splits option.splits dest: findIndex_find)
qed

lemma addTx_accepts_shape:
  assumes "fst (addTx cr tx block_txs UTXOs) = Inr ok"
  shows "\<exists>inputs outputs h. tx = Tx inputs outputs h \<and> (\<forall>inp \<in> set inputs. find (refers inp) UTXOs \<noteq> None)"
  using assms
  by (auto simp: addTx_def addTx_validate_def split: tx.splits sum.splits if_splits prod.splits
      dest: addTx_inputs_found)

lemma find_claim:
  "find (refers inp) UTXOs = Some U \<Longrightarrow>
   (find (\<lambda>u. u_hash u = u_hash U \<and> u_index u = u_index U) used = None) = (\<not> list_ex (refers inp) used)"
  by (auto simp: find_None_iff find_Some_iff refers_def list_ex_iff)

lemma pool_inputs_result:
  "\<forall>inp \<in> set inputs. find (refers inp) UTXOs \<noteq> None \<Longrightarrow>
   pool_inputs UTXOs used inputs acc =
     (if list_ex (\<lambda>inp. list_ex (refers inp) used) inputs then Inr None
      else Inr (Some (acc @ List.map_filter (\<lambda>inp. find (refers inp) UTXOs) inputs)))"
proof (induction inputs arbitrary: acc)
  case Nil
  then show ?case by simp
next
  case (Cons inp rest)
  then obtain U where U: "find (refers inp) UTXOs = Some U" by auto
  show ?case
  proof (cases "list_ex (refers inp) used")
    case True
    then have "find (\<lambda>u. u_hash u = u_hash U \<and> u_index u = u_index U) used \<noteq> None"
      using find_claim [OF U] by simp
    then show ?thesis using U True by (auto split: option.splits)
  next
    case False
    then have "find (\<lambda>u. u_hash u = u_hash U \<and> u_index u = u_index U) used = None"
      using find_claim [OF U] by simp
    then show ?thesis using U False Cons by simp
  qed
qed

lemma pool_addTx_frame:
  assumes "a < length st" "pool_addTx cr tx a st p = (r, p', st')"
  shows "st' ! a = st ! a"
  using assms
  by (auto simp: pool_addTx_def addTx_at_def slice_def nth_append split: prod.splits sum.splits if_splits tx.splits option.splits)

lemma claimed_fun: "claimed p = (\<lambda>inp. list_ex (refers inp) (usedUTXOs p))"
  by (rule ext) (simp add: claimed_def)

lemma find_holds: "find P xs = Some x \<Longrightarrow> P x"
  by (auto simp: find_Some_iff)

lemma pool_addTx_validated:
  assumes a: "a < length st" and v: "fst (addTx cr tx [] (st ! a)) = Inr True"
  shows "pool_addTx cr tx a st p =
     (if list_ex (claimed p) (tx_inputs tx) then (Inr False, p, snd (snd (pool_addTx cr tx a st p)))
      else (Inr True,
            \<lparr>pool_txs = pool_txs p @ [tx],
             usedUTXOs = usedUTXOs p @ referenced (st ! a) (tx_inputs tx)\<rparr>,
            snd (snd (pool_addTx cr tx a st p))))"
proof -
  from addTx_accepts_shape [OF v] obtain inputs outputs h where
    tx: "tx = Tx inputs outputs h" and
    found: "\<forall>inp \<in> set inputs. find (refers inp) (st ! a) \<noteq> None" by blast
  from v obtain bt U' where r: "addTx cr tx [] (st ! a) = (Inr True, bt, U')"
    by (cases "addTx cr tx [] (st ! a)") auto
  have st2: "(st @ [st ! a])[length st := U'] ! a = st ! a"
    using a by (simp add: nth_append)
  show ?thesis
    using r tx a st2
    by (simp add: pool_addTx_def slice_def addTx_at_def pool_inputs_result [OF found]
        claimed_fun referenced_def)
qed

lemma referenced_length:
  "\<forall>inp \<in> set inputs. find (refers inp) UTXOs \<noteq> None \<Longrightarrow>
   length (referenced UTXOs inputs) = length inputs"
  by (induction inputs) (auto simp: referenced_def)

lemma referenced_claims:
  "find (refers inp) UTXOs \<noteq> None \<Longrightarrow> inp \<in> set inputs \<Longrightarrow>
   list_ex (refers inp) (referenced UTXOs inputs)"
proof (induction inputs)
  case Nil
  then show ?case by simp
next
  case (Cons i inputs)
  show ?case
  proof (cases "inp = i")
    case True
    with Cons.prems obtain U where U: "find (refers i) UTXOs = Some U" by auto
    from find_holds [OF U] U True show ?thesis by (simp add: referenced_def)
  next
    case False
    with Cons have "list_ex (refers inp) (referenced UTXOs inputs)" by simp
    then show ?thesis
      by (cases "find (refers i) UTXOs") (simp_all add: referenced_def)
  qed
qed

lemma same_ref_refers: "same_ref i j \<Longrightarrow> refers i U = refers j U"
  by (auto simp: same_ref_def refers_def)

text \<open>
  C9. Let \<open>tx\<close> validate against the UTXO set (the array at address \<open>a\<close>). If one of its
  inputs is already claimed in \<open>usedUTXOs\<close>, \<open>pool.addTx\<close> returns false and the pool is
  as before. If none is claimed, it returns true, \<open>tx\<close> is appended to the pool's
  transactions and the UTXOs its inputs reference, one per input, are appended to
  \<open>usedUTXOs\<close>. Hence when \<open>tx\<close> has been accepted and a second valid transaction spends
  a UTXO that \<open>tx\<close> spends, the second is turned down with false and the pool stays as the
  first left it.
\<close>

theorem pool_addTx_first_wins:
  assumes "a < length st" and "fst (addTx cr tx [] (st ! a)) = Inr True"
  shows
   "(list_ex (claimed p) (tx_inputs tx) \<longrightarrow>
       fst (pool_addTx cr tx a st p) = Inr False \<and> fst (snd (pool_addTx cr tx a st p)) = p) \<and>
    (\<not> list_ex (claimed p) (tx_inputs tx) \<longrightarrow>
       fst (pool_addTx cr tx a st p) = Inr True \<and>
       fst (snd (pool_addTx cr tx a st p))
         = \<lparr>pool_txs = pool_txs p @ [tx],
            usedUTXOs = usedUTXOs p @ referenced (st ! a) (tx_inputs tx)\<rparr> \<and>
       length (referenced (st ! a) (tx_inputs tx)) = length (tx_inputs tx)) \<and>
    (\<not> list_ex (claimed p) (tx_inputs tx) \<and>
     fst (addTx cr tx2 [] (st ! a)) = Inr True \<and>
     list_ex (\<lambda>i. list_ex (same_ref i) (tx_inputs tx2)) (tx_inputs tx) \<longrightarrow>
       (case pool_addTx cr tx a st p of
          (r1, p1, st1) \<Rightarrow>
            fst (pool_addTx cr tx2 a st1 p1) = Inr False \<and>
            fst (snd (pool_addTx cr tx2 a st1 p1)) = p1))"
proof (intro conjI impI)
  assume c: "list_ex (claimed p) (tx_inputs tx)"
  show "fst (pool_addTx cr tx a st p) = Inr False"
    by (subst pool_addTx_validated [OF assms]) (simp add: c)
  show "fst (snd (pool_addTx cr tx a st p)) = p"
    by (subst pool_addTx_validated [OF assms]) (simp add: c)
next
  assume c: "\<not> list_ex (claimed p) (tx_inputs tx)"
  show "fst (pool_addTx cr tx a st p) = Inr True"
    by (subst pool_addTx_validated [OF assms]) (simp add: c)
  show "fst (snd (pool_addTx cr tx a st p))
         = \<lparr>pool_txs = pool_txs p @ [tx],
            usedUTXOs = usedUTXOs p @ referenced (st ! a) (tx_inputs tx)\<rparr>"
    by (subst pool_addTx_validated [OF assms]) (simp add: c)
  from addTx_accepts_shape [OF assms(2)]
  show "length (referenced (st ! a) (tx_inputs tx)) = length (tx_inputs tx)"
    by (auto intro: referenced_length)
next
  assume h: "\<not> list_ex (claimed p) (tx_inputs tx) \<and>
     fst (addTx cr tx2 [] (st ! a)) = Inr True \<and>
     list_ex (\<lambda>i. list_ex (same_ref i) (tx_inputs tx2)) (tx_inputs tx)"
  obtain r1 p1 st1 where one: "pool_addTx cr tx a st p = (r1, p1, st1)"
    by (cases "pool_addTx cr tx a st p") auto
  from h have c: "\<not> list_ex (claimed p) (tx_inputs tx)" by simp
  have p1: "p1 = \<lparr>pool_txs = pool_txs p @ [tx],
            usedUTXOs = usedUTXOs p @ referenced (st ! a) (tx_inputs tx)\<rparr>"
    using one by (subst (asm) pool_addTx_validated [OF assms]) (simp add: c)
  have same: "st1 ! a = st ! a" using pool_addTx_frame [OF assms(1) one] .
  have len: "a < length st1"
    using one assms(1)
    by (auto simp: pool_addTx_def slice_def addTx_at_def
        split: prod.splits sum.splits if_splits tx.splits option.splits)
  from h have v2: "fst (addTx cr tx2 [] (st1 ! a)) = Inr True" by (simp add: same)
  from h obtain i j where ij: "i \<in> set (tx_inputs tx)" "j \<in> set (tx_inputs tx2)" "same_ref i j"
    by (auto simp: list_ex_iff)
  from addTx_accepts_shape [OF assms(2)] ij(1) have "find (refers i) (st ! a) \<noteq> None" by auto
  from referenced_claims [OF this ij(1)]
  have "list_ex (refers i) (referenced (st ! a) (tx_inputs tx))" .
  then have "list_ex (refers j) (usedUTXOs p1)"
    using same_ref_refers [OF ij(3)] by (auto simp: p1 list_ex_iff)
  with ij(2) have c2: "list_ex (claimed p1) (tx_inputs tx2)"
    by (auto simp: claimed_def list_ex_iff)
  have "fst (pool_addTx cr tx2 a st1 p1) = Inr False \<and>
        fst (snd (pool_addTx cr tx2 a st1 p1)) = p1"
    by (subst (1 2) pool_addTx_validated [OF len v2]) (simp add: c2)
  then show "case pool_addTx cr tx a st p of
          (r1, p1, st1) \<Rightarrow>
            fst (pool_addTx cr tx2 a st1 p1) = Inr False \<and>
            fst (snd (pool_addTx cr tx2 a st1 p1)) = p1"
    by (simp add: one)
qed

theorem pool_addTx_first_wins_witness:
  "0 < length [confirmed] \<and>
   fst (addTx demo txA [] ([confirmed] ! 0)) = Inr True \<and>
   \<not> list_ex (claimed emptyPool) (tx_inputs txA) \<and>
   fst (addTx demo txA' [] ([confirmed] ! 0)) = Inr True \<and>
   list_ex (\<lambda>i. list_ex (same_ref i) (tx_inputs txA')) (tx_inputs txA) \<and>
   list_ex (claimed poolA) (tx_inputs txA') \<and>
   fst (pool_addTx demo txA 0 [confirmed] emptyPool) = Inr True \<and>
   fst (snd (pool_addTx demo txA 0 [confirmed] emptyPool))
     = \<lparr>pool_txs = pool_txs emptyPool @ [txA],
        usedUTXOs = usedUTXOs emptyPool @ referenced ([confirmed] ! 0) (tx_inputs txA)\<rparr> \<and>
   (case pool_addTx demo txA 0 [confirmed] emptyPool of
      (r1, p1, st1) \<Rightarrow>
        fst (pool_addTx demo txA' 0 st1 p1) = Inr False \<and>
        fst (snd (pool_addTx demo txA' 0 st1 p1)) = p1) \<and>
   fst (pool_addTx demo txA' 0 [confirmed] poolA) = Inr False \<and>
   fst (snd (pool_addTx demo txA' 0 [confirmed] poolA)) = poolA"
proof -
  have len: "0 < length [confirmed]" by simp
  have v1: "fst (addTx demo txA [] ([confirmed] ! 0)) = Inr True" by code_simp
  have v2: "fst (addTx demo txA' [] ([confirmed] ! 0)) = Inr True" by code_simp
  have free: "\<not> list_ex (claimed emptyPool) (tx_inputs txA)" by code_simp
  have shared: "list_ex (\<lambda>i. list_ex (same_ref i) (tx_inputs txA')) (tx_inputs txA)"
    by code_simp
  have taken: "list_ex (claimed poolA) (tx_inputs txA')" by code_simp
  from len v1 v2 free shared taken
    pool_addTx_first_wins [OF len v1, of emptyPool txA']
    pool_addTx_first_wins [OF len v2, of poolA txA]
  show ?thesis by simp
qed

text \<open>
  C10. \<open>pool.addTx\<close> never changes the array of UTXOs it is given: \<open>Txs.addTx\<close> works on
  the array that \<open>slice\<close> allocated, so the caller's array holds the same elements after
  the call, whatever the outcome. No array that existed before the call is changed.
\<close>

theorem pool_addTx_keeps_UTXOs:
  assumes "a < length st" and "pool_addTx cr tx a st p = (r, p', st')"
  shows "st' ! a = st ! a \<and> take (length st) st' = st"
  using assms
  by (auto simp: pool_addTx_def addTx_at_def slice_def nth_append
      split: prod.splits sum.splits if_splits tx.splits option.splits)

theorem pool_addTx_keeps_UTXOs_witness:
  "0 < length [confirmed] \<and>
   pool_addTx demo txA 0 [confirmed] emptyPool
     = (Inr True, poolA, [confirmed, [utxoB, utxoC, \<lparr>u_hash = digestA, u_index = 0,
                                                      u_publicKey = key2, u_amount = 3\<rparr>]]) \<and>
   [confirmed, [utxoB, utxoC, \<lparr>u_hash = digestA, u_index = 0,
                                u_publicKey = key2, u_amount = 3\<rparr>]] ! 0 = [confirmed] ! 0"
proof -
  have len: "0 < length [confirmed]" by simp
  have run: "pool_addTx demo txA 0 [confirmed] emptyPool
     = (Inr True, poolA, [confirmed, [utxoB, utxoC, \<lparr>u_hash = digestA, u_index = 0,
                                                      u_publicKey = key2, u_amount = 3\<rparr>]])"
    by code_simp
  from len run pool_addTx_keeps_UTXOs [OF len run] show ?thesis by simp
qed

section \<open>Rebuilding a chain from genesis\<close>

lemma txinput_rebuilt:
  "\<lparr>i_hash = i_hash inp, i_index = i_index inp, i_signature = i_signature inp\<rparr> = (inp :: txinput)"
  by (cases inp) simp

lemma txoutput_rebuilt:
  "\<lparr>o_publicKey = o_publicKey out, o_amount = o_amount out\<rparr> = (out :: txoutput)"
  by (cases out) simp

lemma block_rebuilt:
  "\<lparr>time = time b, txs = txs b, nonce = nonce b, hash = hash b\<rparr> = (b :: block)"
  by (cases b) simp

lemma addTx_signatures_result:
  "addTx_signatures cr UTXOs h zs acc = Inr r \<Longrightarrow> r = acc @ map fst zs"
proof (induction zs arbitrary: acc)
  case Nil
  then show ?case by simp
next
  case (Cons z zs)
  obtain inp i where z: "z = (inp, i)" by (cases z)
  from Cons.prems z have
    "addTx_signatures cr UTXOs h zs (acc @ [inp]) = Inr r"
    by (auto simp: txinput_rebuilt split: if_splits option.splits)
  from Cons.IH [OF this] z show ?case by simp
qed

lemma addTx_outputs_result:
  "addTx_outputs cr outs (net, acc) = Inr (net', r) \<Longrightarrow> r = acc @ outs"
proof (induction outs arbitrary: net acc)
  case Nil
  then show ?case by simp
next
  case (Cons out outs)
  from Cons.prems have
    "addTx_outputs cr outs (fl (net - o_amount out), acc @ [out]) = Inr (net', r)"
    by (auto simp: txoutput_rebuilt split: if_splits option.splits)
  from Cons.IH [OF this] show ?case by simp
qed

lemma addTx_inputs_length:
  "addTx_inputs UTXOs inputs (idxs, net, vin) = Inr (idxs', net', vin') \<Longrightarrow>
   length idxs' = length idxs + length inputs"
proof (induction inputs arbitrary: idxs net vin)
  case Nil
  then show ?case by simp
next
  case (Cons inp inputs)
  from Cons.prems obtain i where
    "addTx_inputs UTXOs inputs (idxs @ [i], fl (net + u_amount (UTXOs ! i)),
       vin @ [(i_hash inp, i_index inp)]) = Inr (idxs', net', vin')"
    by (auto split: if_splits option.splits)
  from Cons.IH [OF this] show ?case by simp
qed

lemma addTx_validate_same:
  assumes "addTx_validate cr tx UTXOs = Inr (validated, idxs)"
  shows "validated = tx"
proof (cases tx)
  case (Tx inputs outputs h)
  from assms Tx obtain net1 vin net vout sin where
    i: "addTx_inputs UTXOs inputs ([], 0, []) = Inr (idxs, net1, vin)" and
    out: "addTx_outputs cr outputs (net1, []) = Inr (net, vout)" and
    s: "addTx_signatures cr UTXOs h (zip inputs idxs) [] = Inr sin" and
    v: "validated = Tx sin vout h"
    by (auto simp: addTx_validate_def split: sum.splits if_splits prod.splits)
  have "length idxs = length inputs" using addTx_inputs_length [OF i] by simp
  then have "sin = inputs" using addTx_signatures_result [OF s] by simp
  moreover have "vout = outputs" using addTx_outputs_result [OF out] by simp
  ultimately show ?thesis using v Tx by simp
next
  case (Coinbase outputs h)
  with assms show ?thesis by (simp add: addTx_validate_def)
qed

lemma addTx_pushes:
  "addTx cr tx block_txs UTXOs = (Inr ok, block_txs', UTXOs') \<Longrightarrow> block_txs' = block_txs @ [tx]"
  by (auto simp: addTx_def split: sum.splits prod.splits dest: addTx_validate_same)

lemma addTxs_result:
  "addTxs cr ts (vtxs, vU) = Inr (vtxs', vU') \<Longrightarrow> vtxs' = vtxs @ ts"
proof (induction ts arbitrary: vtxs vU)
  case Nil
  then show ?case by simp
next
  case (Cons t ts)
  from Cons.prems obtain ok v1 U1 where
    a: "addTx cr t vtxs vU = (Inr ok, v1, U1)" and r: "addTxs cr ts (v1, U1) = Inr (vtxs', vU')"
    by (auto split: sum.splits prod.splits)
  from addTx_pushes [OF a] Cons.IH [OF r] show ?case by simp
qed

lemma addCoinbase_pushes:
  "addCoinbase cr cb t block_txs UTXOs = (Inr ok, block_txs', UTXOs') \<Longrightarrow> block_txs' = block_txs @ [cb]"
  by (auto simp: addCoinbase_def Let_def split: tx.splits list.splits if_splits option.splits)

lemma addBlock_pushes:
  assumes "addBlock cr now b chain UTXOs = (Inr ok, chain', UTXOs')"
  shows "chain' = chain @ [b] \<and> chain \<noteq> []"
proof -
  from assms have ne: "txs b \<noteq> []" "chain \<noteq> []"
    by (auto simp: addBlock_def Let_def split: if_splits)
  from assms obtain vtxs vU vtxs' where
    a: "addTxs cr (butlast (txs b)) ([], UTXOs) = Inr (vtxs, vU)" and
    c: "addCoinbase cr (last (txs b)) (time b) vtxs vU = (Inr (), vtxs', UTXOs')" and
    r: "chain' = chain @ [\<lparr>time = time b, txs = vtxs', nonce = nonce b, hash = hash b\<rparr>]"
    by (auto simp: addBlock_def Let_def split: if_splits sum.splits prod.splits)
  have "vtxs' = butlast (txs b) @ [last (txs b)]"
    using addTxs_result [OF a] addCoinbase_pushes [OF c] by simp
  then have "vtxs' = txs b" using ne by simp
  then show ?thesis using r ne by simp
qed

lemma addBlock_later:
  "addBlock cr t b chain UTXOs = (Inr ok, chain', UTXOs') \<Longrightarrow> t \<le> t' \<Longrightarrow>
   addBlock cr t' b chain UTXOs = (Inr ok, chain', UTXOs')"
  by (auto simp: addBlock_def Let_def split: if_splits sum.splits prod.splits)

lemma addBlocks_later:
  "addBlocks cr t bs acc = Inr r \<Longrightarrow> t \<le> t' \<Longrightarrow> addBlocks cr t' bs acc = Inr r"
proof (induction bs arbitrary: acc)
  case Nil
  then show ?case by simp
next
  case (Cons b bs)
  obtain c U where acc: "acc = (c, U)" by (cases acc)
  from Cons.prems(1) acc obtain ok c' U' where
    s: "addBlock cr t b c U = (Inr ok, c', U')" and rest: "addBlocks cr t bs (c', U') = Inr r"
    by (auto split: sum.splits prod.splits)
  from addBlock_later [OF s Cons.prems(2)] Cons.IH [OF rest Cons.prems(2)] acc
  show ?case by simp
qed

lemma addBlocks_snoc:
  "addBlocks cr t (bs @ [b]) acc =
     (case addBlocks cr t bs acc of
        Inl e \<Rightarrow> Inl e
      | Inr (c, U) \<Rightarrow> addBlocks cr t [b] (c, U))"
proof (induction bs arbitrary: acc)
  case Nil
  then show ?case by (cases acc) simp
next
  case (Cons a bs)
  then show ?case by (cases acc) (auto split: sum.splits prod.splits)
qed

lemma addBlocks_result:
  "addBlocks cr t bs (c, U) = Inr (c', U') \<Longrightarrow> c' = c @ bs"
proof (induction bs arbitrary: c U)
  case Nil
  then show ?case by simp
next
  case (Cons b bs)
  from Cons.prems obtain ok c1 U1 where
    a: "addBlock cr t b c U = (Inr ok, c1, U1)" and r: "addBlocks cr t bs (c1, U1) = Inr (c', U')"
    by (auto split: sum.splits prod.splits)
  from addBlock_pushes [OF a] Cons.IH [OF r] show ?case by simp
qed

lemma reachable_replays: "reachable cr t nd \<Longrightarrow> replays cr t nd"
proof (induction rule: reachable.induct)
  case (genesis t)
  then show ?case by (simp add: replays_def genesisChain_def)
next
  case (later t nd t')
  then show ?case by (auto simp: replays_def dest: addBlocks_later)
next
  case (block t nd b r chain' UTXOs')
  show ?case
  proof (cases r)
    case (Inl e)
    with block.hyps(2) addBlock_failure [of cr t b "node_chain nd" "node_UTXOs nd" e]
    have "chain' = node_chain nd" "UTXOs' = node_UTXOs nd" by simp_all
    with block.IH show ?thesis by (simp add: replays_def)
  next
    case (Inr ok)
    with block.hyps(2) have s: "addBlock cr t b (node_chain nd) (node_UTXOs nd) = (Inr ok, chain', UTXOs')"
      by simp
    from addBlock_pushes [OF s] have c: "chain' = node_chain nd @ [b]" "node_chain nd \<noteq> []" by simp_all
    from block.IH have "addBlocks cr t (tl (node_chain nd)) (genesisChain cr, genesisUTXOs cr)
        = Inr (node_chain nd, node_UTXOs nd)" by (simp add: replays_def)
    then have "addBlocks cr t (tl (node_chain nd) @ [b]) (genesisChain cr, genesisUTXOs cr) = Inr (chain', UTXOs')"
      using s by (simp add: addBlocks_snoc)
    then show ?thesis using c by (simp add: replays_def)
  qed
next
  case (swap t nd candidate r nd')
  show ?case
  proof (cases "nd' = nd")
    case True
    with swap.IH show ?thesis by simp
  next
    case False
    with swap.hyps(2) obtain v vU where
      a: "addBlocks cr t (drop 1 candidate) (genesisChain cr, genesisUTXOs cr) = Inr (v, vU)" and
      n: "nd' = \<lparr>node_chain = v, node_UTXOs = vU\<rparr>"
      by (auto simp: swapChains_def Let_def split: sum.splits prod.splits if_splits)
    from addBlocks_result [OF a] have "v = genesisChain cr @ drop 1 candidate" .
    then have "v \<noteq> []" "tl v = drop 1 candidate" by (simp_all add: genesisChain_def)
    with a n show ?thesis by (simp add: replays_def)
  qed
qed

lemma round53_0: "round53 0 = 0" by (simp add: round53_def)

lemma swapChains_own:
  assumes "replays cr t nd"
  shows "swapChains cr t (node_chain nd) nd = (Inr 0, nd)"
proof -
  from assms have "addBlocks cr t (drop 1 (node_chain nd)) (genesisChain cr, genesisUTXOs cr)
        = Inr (node_chain nd, node_UTXOs nd)"
    by (simp add: replays_def drop_Suc)
  then show ?thesis by (simp add: swapChains_def fsub_def round53_0)
qed

section \<open>Rounding to 53 bits\<close>

lemmas bitlen_unfold = bitlen.simps

declare bitlen.simps [simp del]

lemma bitlen_le_iff: "bitlen n \<le> k \<longleftrightarrow> n < 2 ^ k"
proof (induction n arbitrary: k rule: bitlen.induct)
  case (1 n)
  show ?case
  proof (cases "n = 0")
    case True
    then show ?thesis by (simp add: bitlen.simps [of 0])
  next
    case False
    show ?thesis
    proof (cases k)
      case 0
      with False show ?thesis by (simp add: bitlen.simps [of n])
    next
      case (Suc j)
      have "bitlen n \<le> k \<longleftrightarrow> bitlen (n div 2) \<le> j"
        using False Suc by (simp add: bitlen.simps [of n])
      also have "\<dots> \<longleftrightarrow> n div 2 < 2 ^ j" using 1 [OF False] .
      also have "\<dots> \<longleftrightarrow> n < 2 ^ k" using Suc by auto
      finally show ?thesis .
    qed
  qed
qed

lemma bitlen_less: "n < 2 ^ bitlen n"
  using bitlen_le_iff [of n "bitlen n"] by simp

lemma bitlen_lower: "0 < bitlen n \<Longrightarrow> 2 ^ (bitlen n - 1) \<le> n"
  using bitlen_le_iff [of n "bitlen n - 1"] by (cases "bitlen n") auto

lemma bitlen_mono: "m \<le> n \<Longrightarrow> bitlen m \<le> bitlen n"
  using bitlen_le_iff [of m "bitlen n"] bitlen_less [of n] by simp

lemma round53_exact: "bitlen s \<le> 53 \<Longrightarrow> round53 s = s"
  by (simp add: round53_def)

text \<open>The quotient that rounding to \<open>p\<close> bits keeps has exactly \<open>p\<close> bits.\<close>

lemma top_power:
  assumes "p < bitlen s" "0 < p"
  shows "(2::nat) ^ (p - 1) * 2 ^ (bitlen s - p) = 2 ^ (bitlen s - 1)"
proof -
  have "(p - 1) + (bitlen s - p) = bitlen s - 1" using assms by simp
  then show ?thesis by (simp only: power_add [symmetric])
qed

lemma quotient_lower:
  assumes "p < bitlen s" "0 < p"
  shows "2 ^ (p - 1) * 2 ^ (bitlen s - p) \<le> s"
proof -
  have "2 ^ (bitlen s - 1) \<le> s" using bitlen_lower [of s] assms by simp
  then show ?thesis by (simp only: top_power [OF assms])
qed

lemma quotient_upper:
  assumes "p < bitlen s"
  shows "s div 2 ^ (bitlen s - p) < 2 ^ p"
proof -
  have "p + (bitlen s - p) = bitlen s" using assms by simp
  then have "(2::nat) ^ p * 2 ^ (bitlen s - p) = 2 ^ bitlen s"
    by (simp only: power_add [symmetric])
  then have "s < 2 ^ p * 2 ^ (bitlen s - p)" using bitlen_less [of s] by simp
  then show ?thesis by (simp add: less_mult_imp_div_less)
qed

lemma quotient_ge:
  assumes "p < bitlen s" "0 < p"
  shows "2 ^ (p - 1) \<le> s div 2 ^ (bitlen s - p)"
proof -
  have "2 ^ (p - 1) * 2 ^ (bitlen s - p) div 2 ^ (bitlen s - p) \<le> s div 2 ^ (bitlen s - p)"
    using quotient_lower [OF assms] by (rule div_le_mono)
  then show ?thesis by simp
qed

lemma shorter_below_quotient:
  assumes "bitlen a < bitlen s" "p < bitlen s" "0 < p"
  shows "a \<le> (s div 2 ^ (bitlen s - p)) * 2 ^ (bitlen s - p)"
proof -
  have "a < 2 ^ bitlen a" by (rule bitlen_less)
  also have "(2::nat) ^ bitlen a \<le> 2 ^ (bitlen s - 1)"
    using assms(1) by (simp add: power_increasing)
  also have "(2::nat) ^ (bitlen s - 1) = 2 ^ (p - 1) * 2 ^ (bitlen s - p)"
    by (rule top_power [OF assms(2,3), symmetric])
  also have "\<dots> \<le> (s div 2 ^ (bitlen s - p)) * 2 ^ (bitlen s - p)"
    using quotient_ge [OF assms(2,3)] by (rule mult_le_mono1)
  finally show ?thesis by simp
qed

lemma multiple_below_quotient:
  assumes "2 ^ k dvd (a::nat)" "a \<le> s"
  shows "a \<le> (s div 2 ^ k) * 2 ^ k"
proof -
  from assms(1) obtain c where c: "a = 2 ^ k * c" by (auto simp: dvd_def)
  with assms(2) have "c * 2 ^ k \<le> s" by (simp add: mult.commute)
  then have "c \<le> s div 2 ^ k" by (simp add: less_eq_div_iff_mult_less_eq)
  then have "c * 2 ^ k \<le> (s div 2 ^ k) * 2 ^ k" by (rule mult_le_mono1)
  then show ?thesis using c by (simp add: mult.commute)
qed

lemma bitlen_power: "bitlen (2 ^ n) = Suc n"
proof -
  have "bitlen (2 ^ n) \<le> Suc n" by (simp add: bitlen_le_iff)
  moreover have "\<not> bitlen (2 ^ n) \<le> n" by (simp add: bitlen_le_iff)
  ultimately show ?thesis by simp
qed

lemma scaled_fits:
  assumes "m \<le> 2 ^ p" "0 < p"
  shows "bitlen (m * 2 ^ k) \<le> p \<or> 2 ^ (bitlen (m * 2 ^ k) - p) dvd m * 2 ^ k"
proof (cases "m = 2 ^ p")
  case True
  then have v: "m * 2 ^ k = 2 ^ (p + k)" by (simp only: power_add)
  have "bitlen (2 ^ (p + k)) - p \<le> p + k" using assms(2) by (simp add: bitlen_power)
  then have "(2::nat) ^ (bitlen (2 ^ (p + k)) - p) dvd 2 ^ (p + k)" by (rule le_imp_power_dvd)
  then show ?thesis by (simp only: v) simp
next
  case False
  with assms have "m < 2 ^ p" by simp
  then have "m * 2 ^ k < 2 ^ p * 2 ^ k" by simp
  then have "m * 2 ^ k < 2 ^ (p + k)" by (simp only: power_add)
  then have "bitlen (m * 2 ^ k) \<le> p + k" by (simp only: bitlen_le_iff)
  then have "bitlen (m * 2 ^ k) - p \<le> k" by simp
  then have "(2::nat) ^ (bitlen (m * 2 ^ k) - p) dvd 2 ^ k" by (rule le_imp_power_dvd)
  then show ?thesis by simp
qed

lemma round53_down:
  assumes "53 < bitlen s"
  shows "(s div 2 ^ (bitlen s - 53)) * 2 ^ (bitlen s - 53) \<le> round53 s"
  using assms by (simp add: round53_def Let_def)

lemma representable_le_round53:
  assumes "representable a" "a \<le> s"
  shows "a \<le> round53 s"
proof (cases "bitlen s \<le> 53")
  case True
  with assms show ?thesis by (simp add: round53_exact)
next
  case False
  then have L: "53 < bitlen s" by simp
  have "a \<le> (s div 2 ^ (bitlen s - 53)) * 2 ^ (bitlen s - 53)"
  proof (cases "bitlen a < bitlen s")
    case True
    then show ?thesis using L by (intro shorter_below_quotient) simp_all
  next
    case False
    with bitlen_mono [OF assms(2)] have eq: "bitlen a = bitlen s" by simp
    with assms(1) L have "2 ^ (bitlen s - 53) dvd a" by (simp add: representable_def)
    then show ?thesis using assms(2) by (rule multiple_below_quotient)
  qed
  also have "\<dots> \<le> round53 s" by (rule round53_down [OF L])
  finally show ?thesis .
qed

lemma representable_scaled: "m \<le> 2 ^ 53 \<Longrightarrow> representable (m * 2 ^ k)"
  unfolding representable_def by (rule scaled_fits) simp_all

lemma representable_round53: "representable (round53 s)"
proof (cases "bitlen s \<le> 53")
  case True
  then show ?thesis by (simp add: round53_exact representable_def)
next
  case False
  then have L: "53 < bitlen s" by simp
  have q: "s div 2 ^ (bitlen s - 53) < 2 ^ 53" by (rule quotient_upper [OF L])
  then have "s div 2 ^ (bitlen s - 53) + 1 \<le> 2 ^ 53" by simp
  then have up: "representable ((s div 2 ^ (bitlen s - 53) + 1) * 2 ^ (bitlen s - 53))"
    by (rule representable_scaled)
  from q have "s div 2 ^ (bitlen s - 53) \<le> 2 ^ 53" by simp
  then have down: "representable ((s div 2 ^ (bitlen s - 53)) * 2 ^ (bitlen s - 53))"
    by (rule representable_scaled)
  show ?thesis using up down False by (simp add: round53_def Let_def)
qed

lemma round53_pos:
  assumes "0 < s"
  shows "0 < round53 s"
proof (cases "bitlen s \<le> 53")
  case True
  with assms show ?thesis by (simp add: round53_exact)
next
  case False
  then have L: "53 < bitlen s" by simp
  have "(2::nat) ^ (53 - 1) \<le> s div 2 ^ (bitlen s - 53)"
    by (rule quotient_ge [OF L]) simp
  then have "0 < s div 2 ^ (bitlen s - 53)"
    by (rule less_le_trans [rotated]) simp
  then have "0 < (s div 2 ^ (bitlen s - 53)) * 2 ^ (bitlen s - 53)" by simp
  with round53_down [OF L] show ?thesis by linarith
qed

text \<open>\<open>blockDifficulty\<close> is never below -1, so \<open>pow2\<close> is \<open>Math.pow(2, d)\<close> in halves for
  every difficulty that occurs.\<close>

lemma blockDifficulty_ge: "- 1 \<le> blockDifficulty b"
proof -
  have "- 1 \<le> indexOf s c" for s c
    by (induction s) (auto simp: Let_def)
  then show ?thesis by (simp add: blockDifficulty_def)
qed

lemma chainDifficulty_snoc:
  "chainDifficulty (chain @ [b]) = round53 (chainDifficulty chain + pow2 (blockDifficulty b))"
  by (simp add: chainDifficulty_def)

lemma representable_chainDifficulty: "representable (chainDifficulty chain)"
proof (cases chain rule: rev_cases)
  case Nil
  then show ?thesis by (simp add: chainDifficulty_def representable_def bitlen.simps [of 0])
next
  case (snoc bs b)
  then show ?thesis by (simp add: chainDifficulty_snoc representable_round53)
qed

lemma pow2_pos: "0 < pow2 d" by (simp add: pow2_def)

lemma chainDifficulty_pos: "chain \<noteq> [] \<Longrightarrow> 0 < chainDifficulty chain"
  by (cases chain rule: rev_cases) (simp_all add: chainDifficulty_snoc round53_pos pow2_pos)

lemma chainDifficulty_grows:
  "chainDifficulty chain \<le> chainDifficulty (chain @ [b])"
  unfolding chainDifficulty_snoc
  by (rule representable_le_round53 [OF representable_chainDifficulty]) simp

lemma round53_representable:
  assumes "representable s"
  shows "round53 s = s"
proof (cases "bitlen s \<le> 53")
  case True
  then show ?thesis by (rule round53_exact)
next
  case False
  with assms have d: "2 ^ (bitlen s - 53) dvd s" by (simp add: representable_def)
  then have "s mod 2 ^ (bitlen s - 53) = 0" by simp
  moreover have "s div 2 ^ (bitlen s - 53) * 2 ^ (bitlen s - 53) = s"
    using d by simp
  ultimately show ?thesis using False by (simp add: round53_def Let_def)
qed

lemma chainDifficulty_exact:
  "representable (chainDifficulty chain + pow2 (blockDifficulty b)) \<Longrightarrow>
   chainDifficulty chain < chainDifficulty (chain @ [b])"
  by (simp add: chainDifficulty_snoc round53_representable pow2_pos)

section \<open>Fork choice\<close>

lemma fsub_pos_iff: "0 < fsub a b \<longleftrightarrow> b < a"
proof (cases "b < a")
  case True
  then have "0 < round53 (a - b)" by (intro round53_pos) simp
  with True show ?thesis by (simp add: fsub_def)
next
  case False
  then show ?thesis by (simp add: fsub_def round53_0)
qed

lemma fsub_exact:
  "bitlen (a - b) \<le> 53 \<Longrightarrow> bitlen (b - a) \<le> 53 \<Longrightarrow> fsub a b = int a - int b"
  by (simp add: fsub_def round53_exact)

lemma genesis_hash: "hash (genesisBlock demo) = replicate 64 (CHR ''f'')"
  by (simp add: genesisBlock_def demo_def)

lemma bd_f: "hash b = replicate 64 (CHR ''f'') \<Longrightarrow> blockDifficulty b = 0"
  unfolding blockDifficulty_def by (elim ssubst) code_simp

lemma bd_56: "blockDifficulty block56 = 56"
  by code_simp

lemma cd_genesis: "chainDifficulty (genesisChain demo) = 2"
  by (simp add: chainDifficulty_def genesisChain_def bd_f genesis_hash pow2_def round53_def bitlen_unfold)

lemma cd_F: "chainDifficulty (genesisChain demo @ [blockF]) = 4"
  by (simp add: chainDifficulty_snoc cd_genesis bd_f blockF_def pow2_def round53_def bitlen_unfold)

text \<open>
  C5. When the candidate validates, \<open>swapChains\<close> returns the difference \<open>\<Delta>\<close> between
  the validated candidate's \<open>chainDifficulty\<close> and the current chain's (the double
  subtraction, exact whenever the difference has at most 53 significant bits), and
  replaces the node's chain and UTXO set by the validated ones if and only if the
  candidate's cumulative difficulty is strictly greater, which is when \<open>\<Delta> > 0\<close>;
  otherwise, equal work included, the node's state is as before. In every state that a
  node reaches from genesis, \<open>swapChains\<close> applied to the node's own chain returns 0 and
  leaves the state as it is. The returned number counts halves.
\<close>

theorem swapChains_heavier_only:
  "(addBlocks cr now (drop 1 candidate) (genesisChain cr, genesisUTXOs cr)
      = Inr (validated, validatedUTXOs) \<longrightarrow>
      swapChains cr now candidate nd =
        (Inr (fsub (chainDifficulty validated) (chainDifficulty (node_chain nd))),
         if chainDifficulty (node_chain nd) < chainDifficulty validated
         then \<lparr>node_chain = validated, node_UTXOs = validatedUTXOs\<rparr> else nd) \<and>
      (0 < fsub (chainDifficulty validated) (chainDifficulty (node_chain nd))
         \<longleftrightarrow> chainDifficulty (node_chain nd) < chainDifficulty validated) \<and>
      (bitlen (chainDifficulty validated - chainDifficulty (node_chain nd)) \<le> 53 \<and>
       bitlen (chainDifficulty (node_chain nd) - chainDifficulty validated) \<le> 53 \<longrightarrow>
         fsub (chainDifficulty validated) (chainDifficulty (node_chain nd))
           = int (chainDifficulty validated) - int (chainDifficulty (node_chain nd)))) \<and>
   (reachable cr t nd \<and> t \<le> now \<longrightarrow> swapChains cr now (node_chain nd) nd = (Inr 0, nd))"
proof (intro conjI impI)
  assume "addBlocks cr now (drop 1 candidate) (genesisChain cr, genesisUTXOs cr)
      = Inr (validated, validatedUTXOs)"
  then show "swapChains cr now candidate nd =
        (Inr (fsub (chainDifficulty validated) (chainDifficulty (node_chain nd))),
         if chainDifficulty (node_chain nd) < chainDifficulty validated
         then \<lparr>node_chain = validated, node_UTXOs = validatedUTXOs\<rparr> else nd)"
    by (simp add: swapChains_def Let_def fsub_pos_iff)
next
  show "0 < fsub (chainDifficulty validated) (chainDifficulty (node_chain nd))
         \<longleftrightarrow> chainDifficulty (node_chain nd) < chainDifficulty validated"
    by (rule fsub_pos_iff)
next
  assume "bitlen (chainDifficulty validated - chainDifficulty (node_chain nd)) \<le> 53 \<and>
       bitlen (chainDifficulty (node_chain nd) - chainDifficulty validated) \<le> 53"
  then show "fsub (chainDifficulty validated) (chainDifficulty (node_chain nd))
           = int (chainDifficulty validated) - int (chainDifficulty (node_chain nd))"
    by (simp add: fsub_exact)
next
  assume "reachable cr t nd \<and> t \<le> now"
  then have "reachable cr now nd" by (auto intro: reachable.later)
  then have "replays cr now nd" by (rule reachable_replays)
  then show "swapChains cr now (node_chain nd) nd = (Inr 0, nd)" by (rule swapChains_own)
qed

theorem swapChains_heavier_only_witness:
  "addBlocks demo 0 (drop 1 [genesisBlock demo, blockF]) (genesisChain demo, genesisUTXOs demo)
     = Inr (genesisChain demo @ [blockF], genesisUTXOs demo @ [utxoR]) \<and>
   chainDifficulty (node_chain (genesisNode demo)) = 2 \<and>
   chainDifficulty (genesisChain demo @ [blockF]) = 4 \<and>
   swapChains demo 0 [genesisBlock demo, blockF] (genesisNode demo)
     = (Inr 2, \<lparr>node_chain = genesisChain demo @ [blockF],
                 node_UTXOs = genesisUTXOs demo @ [utxoR]\<rparr>) \<and>
   reachable demo 0 (genesisNode demo) \<and>
   swapChains demo 0 (node_chain (genesisNode demo)) (genesisNode demo)
     = (Inr 0, genesisNode demo)"
proof -
  have v: "addBlocks demo 0 (drop 1 [genesisBlock demo, blockF])
             (genesisChain demo, genesisUTXOs demo)
           = Inr (genesisChain demo @ [blockF], genesisUTXOs demo @ [utxoR])"
    by code_simp
  have r: "reachable demo 0 (genesisNode demo)"
    unfolding genesisNode_def by (rule reachable.genesis)
  have c: "chainDifficulty (node_chain (genesisNode demo)) = 2"
    by (simp add: genesisNode_def cd_genesis)
  have small: "bitlen 2 \<le> 53" "bitlen 0 \<le> 53"
    by (simp_all add: bitlen_le_iff)
  from v r c cd_F small
    swapChains_heavier_only [of demo 0 "[genesisBlock demo, blockF]"
      "genesisChain demo @ [blockF]" "genesisUTXOs demo @ [utxoR]" "genesisNode demo" 0]
  show ?thesis by (simp add: fsub_def round53_exact)
qed

section \<open>Cumulative difficulty\<close>

lemma cd_heavy: "chainDifficulty heavyChain = 2 ^ 57"
  by (simp add: heavyChain_def chainDifficulty_snoc cd_genesis bd_56 pow2_def round53_def bitlen_unfold)

lemma cd_heavy_F: "chainDifficulty (heavyChain @ [blockF]) = 2 ^ 57"
  by (simp only: chainDifficulty_snoc [of heavyChain] cd_heavy)
     (simp add: bd_f blockF_def pow2_def round53_def bitlen_unfold)

text \<open>
  C6, as claimed, fails where the sum has left the range in which doubles are exact. The
  chain \<open>heavyChain\<close> is what \<open>swapChains\<close> builds from genesis and a block of difficulty
  56; its cumulative difficulty is \<open>2^56\<close> (\<open>2^57\<close> halves). \<open>addBlock\<close> accepts
  \<open>blockF\<close>, of difficulty 0, onto it, and the cumulative difficulty of the extended chain
  is the same number: \<open>2^56 + 1\<close> rounds to \<open>2^56\<close>.
\<close>

theorem chainDifficulty_not_strict:
  "addBlocks demo 0 [block56] (genesisChain demo, genesisUTXOs demo) = Inr (heavyChain, heavyUTXOs) \<and>
   addBlock demo 0 blockF heavyChain heavyUTXOs = (Inr (), heavyChain @ [blockF], heavyUTXOs @ [utxoR]) \<and>
   chainDifficulty heavyChain = 2 ^ 57 \<and>
   blockDifficulty blockF = 0 \<and>
   chainDifficulty (heavyChain @ [blockF]) = chainDifficulty heavyChain"
proof -
  have 1: "addBlocks demo 0 [block56] (genesisChain demo, genesisUTXOs demo) = Inr (heavyChain, heavyUTXOs)"
    by code_simp
  have 2: "addBlock demo 0 blockF heavyChain heavyUTXOs = (Inr (), heavyChain @ [blockF], heavyUTXOs @ [utxoR])"
    by code_simp
  have 3: "blockDifficulty blockF = 0" by (simp add: bd_f blockF_def)
  from 1 2 3 show ?thesis by (simp add: cd_heavy cd_heavy_F)
qed

lemma addBlock_accepts:
  assumes "fst (addBlock cr now b chain UTXOs) = Inr ok"
  shows "chain \<noteq> [] \<and> fst (snd (addBlock cr now b chain UTXOs)) = chain @ [b]"
proof -
  obtain c' U' where "addBlock cr now b chain UTXOs = (Inr ok, c', U')"
    using assms by (cases "addBlock cr now b chain UTXOs") auto
  then show ?thesis using addBlock_pushes by fastforce
qed

lemma bd_56b: "blockDifficulty block56b = 56"
  by code_simp

lemma sum_heavy: "chainDifficulty heavyChain + pow2 (blockDifficulty block56b) = 2 ^ 58"
  by (simp add: cd_heavy bd_56b pow2_def)

lemma representable_58: "representable (2 ^ 58)"
  using representable_scaled [of 1 58] by simp

text \<open>
  C6, amended. For every chain (a non-empty sequence of blocks) \<open>chainDifficulty\<close> is
  strictly positive. A block that \<open>addBlock\<close> accepts is appended to a non-empty chain,
  and the \<open>chainDifficulty\<close> of the extended chain is never smaller than that of the
  chain; it is strictly greater whenever the sum of the chain's cumulative difficulty and
  \<open>2^blockDifficulty\<close> of the new block is a number that a double holds exactly (at
  most 53 significant bits), so that the double addition is exact. The evaluation that
  follows the theorem is at such a sum above \<open>2^53\<close>: a second block of difficulty 56 on
  \<open>heavyChain\<close>.
\<close>

theorem chainDifficulty_positive_nondecreasing:
  "(chain \<noteq> [] \<longrightarrow> 0 < chainDifficulty chain) \<and>
   (fst (addBlock cr now b chain UTXOs) = Inr ok \<longrightarrow>
      chain \<noteq> [] \<and>
      fst (snd (addBlock cr now b chain UTXOs)) = chain @ [b] \<and>
      chainDifficulty chain \<le> chainDifficulty (chain @ [b]) \<and>
      (representable (chainDifficulty chain + pow2 (blockDifficulty b)) \<longrightarrow>
         chainDifficulty chain < chainDifficulty (chain @ [b])))"
  using chainDifficulty_pos chainDifficulty_grows chainDifficulty_exact addBlock_accepts
  by blast

theorem chainDifficulty_positive_nondecreasing_witness:
  "heavyChain \<noteq> [] \<and>
   fst (addBlock demo 0 block56b heavyChain heavyUTXOs) = Inr () \<and>
   chainDifficulty heavyChain + pow2 (blockDifficulty block56b) = 2 ^ 58 \<and>
   representable (2 ^ 58) \<and>
   \<not> bitlen (2 ^ 58) \<le> 53 \<and>
   0 < chainDifficulty heavyChain \<and>
   fst (snd (addBlock demo 0 block56b heavyChain heavyUTXOs)) = heavyChain @ [block56b] \<and>
   chainDifficulty heavyChain < chainDifficulty (heavyChain @ [block56b])"
proof -
  have 1: "heavyChain \<noteq> []" by (simp add: heavyChain_def)
  have 2: "fst (addBlock demo 0 block56b heavyChain heavyUTXOs) = Inr ()"
    by code_simp
  have 3: "representable (chainDifficulty heavyChain + pow2 (blockDifficulty block56b))"
    by (simp only: sum_heavy representable_58)
  have 4: "\<not> bitlen ((2::nat) ^ 58) \<le> 53" by (simp add: bitlen_le_iff)
  from 1 2 3 4 sum_heavy representable_58
    chainDifficulty_positive_nondecreasing [of heavyChain demo 0 block56b heavyUTXOs "()"]
  show ?thesis by simp
qed

section \<open>Leading zero bits\<close>

text \<open>
  On a hash of 64 lowercase hexadecimal characters, the string that \<open>blockDifficulty\<close>
  builds is the binary expansion of the hash, and \<open>blockDifficulty\<close> is the number of
  its leading zero bits whenever the hash is not the all-zero hash.
\<close>

lemma fold_append_concat:
  "fold (\<lambda>i acc. acc @ f i) ns acc0 = acc0 @ concat (map f ns)"
  by (induction ns arbitrary: acc0) simp_all

lemma binaryOf_concat:
  assumes "length h = 64"
  shows "binaryOf h = concat (map (\<lambda>c. encode [c]) h)"
proof -
  have "map (\<lambda>i. encode (charAt h i)) [0 ..< 64] = map (\<lambda>i. encode [h ! i]) [0 ..< length h]"
    using assms by (simp add: charAt_def)
  also have "\<dots> = map (\<lambda>c. encode [c]) h"
    by (rule nth_equalityI) simp_all
  finally have "map (\<lambda>i. encode (charAt h i)) [0 ..< 64] = map (\<lambda>c. encode [c]) h" .
  then show ?thesis
    unfolding binaryOf_def by (simp only: fold_append_concat) simp
qed

lemma encode_digits:
  "list_all (\<lambda>c. encode [c] = map bitchar (nibble_bits (hex_value c))) ''0123456789abcdef''"
  by code_simp

lemma encode_hex: "is_hex c \<Longrightarrow> encode [c] = map bitchar (nibble_bits (hex_value c))"
  using encode_digits unfolding is_hex_def list_all_iff by blast

lemma binaryOf_expansion:
  assumes "hex_string 64 64 h"
  shows "binaryOf h = map bitchar (expansion h)"
proof -
  from assms have len: "length h = 64" and hex: "\<forall>c \<in> set h. is_hex c"
    by (simp_all add: hex_string_def list_all_iff)
  have eq: "map (\<lambda>c. encode [c]) h = map (\<lambda>c. map bitchar (nibble_bits (hex_value c))) h"
    using hex by (intro map_cong) (simp_all add: encode_hex)
  show ?thesis
    by (simp only: binaryOf_concat [OF len] eq) (simp add: expansion_def map_concat comp_def)
qed

lemma indexOf_bits:
  "indexOf (map bitchar bs) (CHR ''1'') =
     (if True \<in> set bs then int (length (takeWhile Not bs)) else - 1)"
  by (induction bs) (auto simp: bitchar_def Let_def)

lemma blockDifficulty_expansion:
  assumes "hex_string 64 64 (hash b)"
  shows "blockDifficulty b =
     (if True \<in> set (expansion (hash b)) then int (leading_zero_bits (hash b)) else - 1)"
  by (simp add: blockDifficulty_def binaryOf_expansion [OF assms] indexOf_bits leading_zero_bits_def)

lemma nibble_digits:
  "list_all (\<lambda>c. True \<in> set (nibble_bits (hex_value c))) ''123456789abcdef''"
  by code_simp

lemma nibble_zero:
  assumes "is_hex c" "True \<notin> set (nibble_bits (hex_value c))"
  shows "c = CHR ''0''"
proof (rule ccontr)
  assume "c \<noteq> CHR ''0''"
  with assms(1) have "c \<in> set ''123456789abcdef''" by (simp add: is_hex_def)
  with nibble_digits have "True \<in> set (nibble_bits (hex_value c))"
    unfolding list_all_iff by blast
  with assms(2) show False by simp
qed

lemma expansion_zero:
  assumes "hex_string 64 64 h" "True \<notin> set (expansion h)"
  shows "h = zero_hash"
proof -
  from assms(1) have len: "length h = 64" and hex: "\<forall>c \<in> set h. is_hex c"
    by (simp_all add: hex_string_def list_all_iff)
  have "\<forall>c \<in> set h. c = CHR ''0''"
    using assms(2) hex by (auto simp: expansion_def intro: nibble_zero)
  then have "h = replicate (length h) (CHR ''0'')"
    by (simp add: replicate_length_same)
  then show ?thesis by (simp add: zero_hash_def len)
qed

lemma blockDifficulty_leading_zeros:
  assumes "hex_string 64 64 (hash b)" "hash b \<noteq> zero_hash"
  shows "blockDifficulty b = int (leading_zero_bits (hash b))"
  using assms expansion_zero [OF assms(1)]
  by (auto simp: blockDifficulty_expansion)

section \<open>What the wallet builds\<close>

text \<open>
  On a well-formed UTXO set whose amounts sum to at most \<open>2^53 - 1\<close>, so that the sums of
  doubles are exact, with canonical keys, a safe-integer amount and signatures that verify,
  a transaction that \<open>makeTx\<close> returns is accepted by \<open>addTx\<close> against the same UTXO set
  whenever the change is not 1 (\<open>makeTx_accepted\<close>).
\<close>

lemma fl_exact:
  assumes "- (2 ^ 53) \<le> x" "x \<le> 2 ^ 53"
  shows "fl x = x"
proof -
  have r: "representable (nat \<bar>x\<bar>)"
    using representable_scaled [of "nat \<bar>x\<bar>" 0] assms by simp
  show ?thesis
  proof (cases "0 \<le> x")
    case True
    with r have "round53 (nat x) = nat x" by (simp add: round53_representable)
    with True show ?thesis by (simp add: fl_def)
  next
    case False
    with r have "round53 (nat (- x)) = nat (- x)" by (simp add: round53_representable)
    with False show ?thesis by (simp add: fl_def)
  qed
qed

lemma fl_ge:
  assumes "2 ^ 53 \<le> x"
  shows "2 ^ 53 \<le> fl x"
proof -
  have "representable (2 ^ 53)" using representable_scaled [of "2 ^ 53" 0] by simp
  moreover have "2 ^ 53 \<le> nat x" using assms by simp
  ultimately have "2 ^ 53 \<le> round53 (nat x)" by (rule representable_le_round53)
  then have "(2::int) ^ 53 \<le> int (round53 (nat x))" by simp
  moreover have "0 \<le> x" using assms by simp
  ultimately show ?thesis by (simp add: fl_def)
qed

lemma target_test:
  assumes "2 < a" "isSafeInteger a" "x \<le> 2 ^ 53 - 1"
  shows "(target a n \<le> x) = (a + 1 + int n \<le> x)"
proof -
  have a1: "fl (a + 1) = a + 1"
    using assms(1,2) by (intro fl_exact) (simp_all add: isSafeInteger_def)
  show ?thesis
  proof (cases "a + 1 + int n \<le> 2 ^ 53")
    case True
    then have "fl (a + 1 + int n) = a + 1 + int n"
      using assms(1) by (intro fl_exact) simp_all
    then show ?thesis by (simp add: target_def a1)
  next
    case False
    then have "2 ^ 53 \<le> fl (a + 1 + int n)" by (intro fl_ge) simp
    with False assms(3) show ?thesis by (simp add: target_def a1)
  qed
qed

lemma change_exact:
  assumes "2 < a" "a + 1 + int n \<le> x" "x \<le> 2 ^ 53 - 1"
  shows "amountChange x a n = x - a - 1 - int n"
proof -
  have 1: "fl (x - a) = x - a" using assms by (intro fl_exact) simp_all
  have 2: "fl (x - a - 1) = x - a - 1" using assms by (intro fl_exact) simp_all
  have 3: "fl (x - a - 1 - int n) = x - a - 1 - int n" using assms by (intro fl_exact) simp_all
  show ?thesis by (simp add: amountChange_def 1 2 3)
qed

lemma sum_map_nonneg:
  "\<forall>x \<in> set xs. 0 \<le> f x \<Longrightarrow> 0 \<le> sum_list (map f xs)"
  for f :: "'a \<Rightarrow> int"
  by (induction xs) auto

lemma sum_take_le:
  "\<forall>x \<in> set xs. 0 \<le> f x \<Longrightarrow> sum_list (map f (take n xs)) \<le> sum_list (map f xs)"
  for f :: "'a \<Rightarrow> int"
proof -
  assume nn: "\<forall>x \<in> set xs. 0 \<le> f x"
  have "sum_list (map f xs) = sum_list (map f (take n xs)) + sum_list (map f (drop n xs))"
    by (metis append_take_drop_id map_append sum_list_append)
  moreover have "0 \<le> sum_list (map f (drop n xs))"
    using nn by (intro sum_map_nonneg) (auto dest: in_set_dropD)
  ultimately show ?thesis by simp
qed

lemma sum_filter_le:
  "\<forall>x \<in> set xs. 0 \<le> f x \<Longrightarrow> sum_list (map f (filter P xs)) \<le> sum_list (map f xs)"
  for f :: "'a \<Rightarrow> int"
  by (induction xs) auto

lemma gather_prefix:
  assumes "gather a us (ins, amt) = (ins', amt')" and "amt < a + 1 + int (length ins)"
    and "2 < a" "isSafeInteger a"
    and "\<forall>U \<in> set us. 0 \<le> u_amount U" "0 \<le> amt"
    and "amt + sum_list (map u_amount us) \<le> 2 ^ 53 - 1"
  shows "\<exists>n \<le> length us.
           ins' = ins @ map utxo_key (take n us) \<and>
           amt' = amt + sum_list (map u_amount (take n us)) \<and>
           (a + 1 + int (length ins') \<le> amt' \<longrightarrow>
              0 < n \<and> amt' - u_amount (us ! (n - 1)) < a + int (length ins'))"
  using assms(1,2,5,6,7)
proof (induction us arbitrary: ins amt)
  case Nil
  then show ?case by simp
next
  case (Cons U rest)
  let ?ins1 = "ins @ [(u_hash U, u_index U)]"
  let ?amt1 = "amt + u_amount U"
  have nn: "0 \<le> u_amount U" "0 \<le> sum_list (map u_amount rest)"
    using Cons.prems(3) by (simp_all add: sum_map_nonneg)
  have bound: "?amt1 \<le> 2 ^ 53 - 1" using Cons.prems(5) nn by simp
  have ex: "fl ?amt1 = ?amt1" using Cons.prems(4) nn bound by (intro fl_exact) simp_all
  have test: "(target a (length ?ins1) \<le> ?amt1) = (a + 1 + int (length ?ins1) \<le> ?amt1)"
    by (rule target_test [OF assms(3,4) bound])
  show ?case
  proof (cases "a + 1 + int (length ?ins1) \<le> ?amt1")
    case True
    with Cons.prems(1) test ex have r: "ins' = ?ins1" "amt' = ?amt1"
      by (simp_all add: Let_def)
    have "1 \<le> length (U # rest) \<and>
           ins' = ins @ map utxo_key (take 1 (U # rest)) \<and>
           amt' = amt + sum_list (map u_amount (take 1 (U # rest))) \<and>
           (a + 1 + int (length ins') \<le> amt' \<longrightarrow>
              0 < (1::nat) \<and> amt' - u_amount ((U # rest) ! (1 - 1)) < a + int (length ins'))"
      using r Cons.prems(2) by (simp add: utxo_key_def)
    then show ?thesis by blast
  next
    case False
    with Cons.prems(1) test ex have g: "gather a rest (?ins1, ?amt1) = (ins', amt')"
      by (simp add: Let_def)
    from False have p: "?amt1 < a + 1 + int (length ?ins1)" by simp
    have r3: "\<forall>U \<in> set rest. 0 \<le> u_amount U" using Cons.prems(3) by simp
    have r4: "0 \<le> ?amt1" using Cons.prems(4) nn by simp
    have r5: "?amt1 + sum_list (map u_amount rest) \<le> 2 ^ 53 - 1" using Cons.prems(5) by simp
    from Cons.IH [OF g p r3 r4 r5] obtain n where n: "n \<le> length rest"
      "ins' = ?ins1 @ map utxo_key (take n rest)"
      "amt' = ?amt1 + sum_list (map u_amount (take n rest))"
      "a + 1 + int (length ins') \<le> amt' \<longrightarrow>
              0 < n \<and> amt' - u_amount (rest ! (n - 1)) < a + int (length ins')"
      by blast
    have A: "Suc n \<le> length (U # rest)" using n(1) by simp
    have B: "ins' = ins @ map utxo_key (take (Suc n) (U # rest))"
      using n(2) by (simp add: utxo_key_def)
    have C: "amt' = amt + sum_list (map u_amount (take (Suc n) (U # rest)))"
      using n(3) by simp
    have D: "0 < Suc n \<and> amt' - u_amount ((U # rest) ! (Suc n - 1)) < a + int (length ins')"
      if h: "a + 1 + int (length ins') \<le> amt'"
    proof -
      from n(4) h have pos: "0 < n" and
        lt: "amt' - u_amount (rest ! (n - 1)) < a + int (length ins')" by simp_all
      from pos have "(U # rest) ! (Suc n - 1) = rest ! (n - 1)" by (cases n) simp_all
      with lt show ?thesis by simp
    qed
    from A B C D show ?thesis by blast
  qed
qed

lemma findIndex_Some:
  "findIndex P xs = Some i \<Longrightarrow> i < length xs \<and> P (xs ! i)"
  by (induction xs arbitrary: i) (auto split: if_splits)

lemma findIndex_exists: "x \<in> set xs \<Longrightarrow> P x \<Longrightarrow> \<exists>i. findIndex P xs = Some i"
  by (induction xs) auto

lemma findIndex_own:
  assumes "distinct (map utxo_key UTXOs)" "U \<in> set UTXOs"
  shows "\<exists>i. findIndex (refers (signed_input s U)) UTXOs = Some i \<and> i < length UTXOs \<and> UTXOs ! i = U"
proof -
  have "refers (signed_input s U) U" by (simp add: refers_def signed_input_def)
  from findIndex_exists [of U UTXOs "refers (signed_input s U)", OF assms(2) this]
  obtain i where i: "findIndex (refers (signed_input s U)) UTXOs = Some i" ..
  from findIndex_Some [OF i] have l: "i < length UTXOs" and
    "refers (signed_input s U) (UTXOs ! i)" by simp_all
  then have keq: "utxo_key (UTXOs ! i) = utxo_key U"
    by (simp add: refers_def signed_input_def utxo_key_def)
  have inj: "inj_on utxo_key (set UTXOs)" using assms(1) by (simp add: distinct_map)
  have mem: "UTXOs ! i \<in> set UTXOs" using l by simp
  have "UTXOs ! i = U" by (rule inj_onD [OF inj keq mem assms(2)])
  with i l show ?thesis by blast
qed

lemma safe_index: "i = 0 \<or> i = 1 \<Longrightarrow> isSafeInteger i \<and> \<not> i < 0 \<and> \<not> i > 1"
  by (auto simp: isSafeInteger_def)

lemma inputs_accepted:
  assumes "distinct (map utxo_key UTXOs)"
  shows "set sel \<subseteq> set UTXOs \<Longrightarrow> distinct sel \<Longrightarrow>
     \<forall>U \<in> set sel. hex_string 64 64 (u_hash U) \<and> (u_index U = 0 \<or> u_index U = 1) \<and>
                    0 \<le> u_amount U \<Longrightarrow>
     \<forall>i \<in> set idxs0. UTXOs ! i \<notin> set sel \<Longrightarrow>
     0 \<le> net0 \<Longrightarrow> net0 + sum_list (map u_amount sel) \<le> 2 ^ 53 - 1 \<Longrightarrow>
     \<exists>idxs. addTx_inputs UTXOs (map (signed_input s) sel) (idxs0, net0, vin0)
               = Inr (idxs0 @ idxs, net0 + sum_list (map u_amount sel), vin0 @ map utxo_key sel) \<and>
            length idxs = length sel \<and>
            (\<forall>k < length sel. UTXOs ! (idxs ! k) = sel ! k)"
proof (induction sel arbitrary: idxs0 net0 vin0)
  case Nil
  then show ?case by simp
next
  case (Cons U sel)
  from Cons.prems(1) have "U \<in> set UTXOs" by simp
  from findIndex_own [OF assms this, of s] obtain i where
    i: "findIndex (refers (signed_input s U)) UTXOs = Some i" "UTXOs ! i = U" by blast
  have fresh: "i \<notin> set idxs0" using Cons.prems(4) i(2) by auto
  have ok: "hex_string 64 64 (u_hash U)" "u_index U = 0 \<or> u_index U = 1" "0 \<le> u_amount U"
    using Cons.prems(3) by simp_all
  have rest_nn: "0 \<le> sum_list (map u_amount sel)"
    using Cons.prems(3) by (simp add: sum_map_nonneg)
  have ex: "fl (net0 + u_amount U) = net0 + u_amount U"
    using Cons.prems(5,6) ok(3) rest_nn by (intro fl_exact) simp_all
  have step: "addTx_inputs UTXOs (map (signed_input s) (U # sel)) (idxs0, net0, vin0)
     = addTx_inputs UTXOs (map (signed_input s) sel)
         (idxs0 @ [i], net0 + u_amount U, vin0 @ [utxo_key U])"
    using i fresh ok(1) safe_index [OF ok(2)] ex
    by (simp add: signed_input_def utxo_key_def)
  have p1: "set sel \<subseteq> set UTXOs" using Cons.prems(1) by simp
  have p2: "distinct sel" using Cons.prems(2) by simp
  have p3: "\<forall>U \<in> set sel. hex_string 64 64 (u_hash U) \<and> (u_index U = 0 \<or> u_index U = 1) \<and>
                    0 \<le> u_amount U" using Cons.prems(3) by simp
  have p4: "\<forall>j \<in> set (idxs0 @ [i]). UTXOs ! j \<notin> set sel"
    using Cons.prems(2,4) i(2) by auto
  have p5: "0 \<le> net0 + u_amount U" using Cons.prems(5) ok(3) by simp
  have p6: "net0 + u_amount U + sum_list (map u_amount sel) \<le> 2 ^ 53 - 1"
    using Cons.prems(6) by simp
  from Cons.IH [OF p1 p2 p3 p4 p5 p6, of "vin0 @ [utxo_key U]"]
  obtain idxs where idxs:
    "addTx_inputs UTXOs (map (signed_input s) sel) (idxs0 @ [i], net0 + u_amount U, vin0 @ [utxo_key U])
       = Inr ((idxs0 @ [i]) @ idxs, net0 + u_amount U + sum_list (map u_amount sel),
              (vin0 @ [utxo_key U]) @ map utxo_key sel)"
    "length idxs = length sel" "\<forall>k < length sel. UTXOs ! (idxs ! k) = sel ! k"
    by blast
  have R: "addTx_inputs UTXOs (map (signed_input s) (U # sel)) (idxs0, net0, vin0)
               = Inr (idxs0 @ (i # idxs), net0 + sum_list (map u_amount (U # sel)),
                      vin0 @ map utxo_key (U # sel))"
    by (simp only: step idxs(1)) simp
  have L: "length (i # idxs) = length (U # sel)" using idxs(2) by simp
  have N: "UTXOs ! ((i # idxs) ! k) = (U # sel) ! k" if "k < length (U # sel)" for k
    using that i(2) idxs(3) by (cases k) simp_all
  from R L N show ?case by blast
qed

lemma signatures_accepted:
  assumes "\<forall>h. hex_string 20 144 (wallet_sign cr h) \<and>
               verify cr (wallet_publicKey cr) h (wallet_sign cr h) = Some True"
  shows "length idxs = length sel \<Longrightarrow>
     \<forall>k < length sel. u_publicKey (UTXOs ! (idxs ! k)) = wallet_publicKey cr \<Longrightarrow>
     addTx_signatures cr UTXOs h (zip (map (signed_input (wallet_sign cr h)) sel) idxs) acc
       = Inr (acc @ map (signed_input (wallet_sign cr h)) sel)"
proof (induction sel arbitrary: idxs acc)
  case Nil
  then show ?case by simp
next
  case (Cons U sel)
  then obtain i rest where idxs: "idxs = i # rest" by (cases idxs) auto
  from Cons.prems(2) idxs have k: "u_publicKey (UTXOs ! i) = wallet_publicKey cr" by auto
  from Cons.prems idxs have
    "length rest = length sel"
    "\<forall>k < length sel. u_publicKey (UTXOs ! (rest ! k)) = wallet_publicKey cr"
    by auto
  from Cons.IH [OF this] show ?case
    using idxs k assms by (simp add: signed_input_def)
qed

lemma outputs_accepted:
  assumes hon: "honest cr publicKey" and safe: "isSafeInteger amountSent" "2 < amountSent"
    and ch: "change = 0 \<or> (1 < change \<and> isSafeInteger change)"
    and net: "amountSent + change \<le> net" "net \<le> 2 ^ 53 - 1"
  shows "addTx_outputs cr
           (\<lparr>o_publicKey = publicKey, o_amount = amountSent\<rparr>
              # (if change > 1 then [\<lparr>o_publicKey = wallet_publicKey cr, o_amount = change\<rparr>]
                 else []))
           (net, [])
         = Inr (net - amountSent - change,
                \<lparr>o_publicKey = publicKey, o_amount = amountSent\<rparr>
              # (if change > 1 then [\<lparr>o_publicKey = wallet_publicKey cr, o_amount = change\<rparr>]
                 else []))"
proof -
  have nonneg: "0 \<le> change" using ch by auto
  have 1: "fl (net - amountSent) = net - amountSent"
    using safe net nonneg by (intro fl_exact) simp_all
  have 2: "fl (net - amountSent - change) = net - amountSent - change"
    using safe net nonneg by (intro fl_exact) simp_all
  show ?thesis
  proof (cases "change > 1")
    case True
    with ch have "isSafeInteger change" by simp
    with True hon safe 1 2 show ?thesis by (simp add: honest_def)
  next
    case False
    with ch have "change = 0" by simp
    with hon safe 1 show ?thesis by (simp add: honest_def)
  qed
qed

lemma makeTx_shape:
  assumes "makeTx cr amountSent publicKey UTXOs = Inr (Some tx)"
    and "gather amountSent (filter (\<lambda>UTXO. u_publicKey UTXO = wallet_publicKey cr) UTXOs) ([], 0)
           = (inputs, amountInput)"
    and "change = amountChange amountInput amountSent (length inputs)"
    and "outputs = \<lparr>o_publicKey = publicKey, o_amount = amountSent\<rparr>
              # (if change > 1 then [\<lparr>o_publicKey = wallet_publicKey cr, o_amount = change\<rparr>]
                 else [])"
  shows "2 < amountSent \<and> target amountSent (length inputs) \<le> amountInput \<and>
         tx = Tx (map (\<lambda>(uh, ui). \<lparr>i_hash = uh, i_index = ui,
                         i_signature = wallet_sign cr (sha_tx cr inputs outputs)\<rparr>) inputs)
                 outputs (sha_tx cr inputs outputs)"
proof -
  from assms(1) have big: "2 < amountSent" by (simp add: makeTx_def split: if_splits)
  from assms(1,2) big have cover: "\<not> amountInput < target amountSent (length inputs)"
    by (simp add: makeTx_def split: if_splits)
  from assms(1,2) big cover show ?thesis
    unfolding assms(3,4) by (simp add: makeTx_def Let_def)
qed

lemma selection_found:
  assumes dk: "distinct (map utxo_key UTXOs)"
    and shape: "\<forall>U \<in> set UTXOs. hex_string 64 64 (u_hash U) \<and> (u_index U = 0 \<or> u_index U = 1)"
    and total: "safe_total UTXOs"
    and sel: "sel = take n (filter (\<lambda>UTXO. u_publicKey UTXO = k) UTXOs)"
  shows "\<exists>idxs. addTx_inputs UTXOs (map (signed_input s) sel) ([], 0, [])
               = Inr (idxs, sum_list (map u_amount sel), map utxo_key sel) \<and>
            length idxs = length sel \<and>
            (\<forall>j < length sel. u_publicKey (UTXOs ! (idxs ! j)) = k)"
proof -
  let ?mine = "filter (\<lambda>UTXO. u_publicKey UTXO = k) UTXOs"
  from total have nn: "\<forall>U \<in> set UTXOs. 0 \<le> u_amount U"
    and tot: "sum_list (map u_amount UTXOs) \<le> 2 ^ 53 - 1"
    by (simp_all add: safe_total_def list_all_iff)
  have sub: "set sel \<subseteq> set UTXOs"
    unfolding sel using set_take_subset [of n ?mine] by auto
  have own: "\<forall>U \<in> set sel. u_publicKey U = k"
    unfolding sel using set_take_subset [of n ?mine] by auto
  have "distinct UTXOs" using dk by (simp add: distinct_map)
  then have ds: "distinct sel" unfolding sel by simp
  have sh: "\<forall>U \<in> set sel. hex_string 64 64 (u_hash U) \<and> (u_index U = 0 \<or> u_index U = 1) \<and>
                0 \<le> u_amount U"
    using sub shape nn by blast
  have none: "\<forall>i \<in> set ([]::nat list). UTXOs ! i \<notin> set sel" by simp
  have "sum_list (map u_amount sel) \<le> sum_list (map u_amount ?mine)"
    unfolding sel using nn by (intro sum_take_le) simp
  also have "\<dots> \<le> sum_list (map u_amount UTXOs)" using nn by (rule sum_filter_le)
  finally have b: "0 + sum_list (map u_amount sel) \<le> 2 ^ 53 - 1" using tot by simp
  have z: "(0::int) \<le> 0" by simp
  from inputs_accepted [OF dk sub ds sh none z b, of s "[]"]
  obtain idxs where idxs:
    "addTx_inputs UTXOs (map (signed_input s) sel) ([], 0, [])
       = Inr ([] @ idxs, 0 + sum_list (map u_amount sel), [] @ map utxo_key sel)"
    "length idxs = length sel" "\<forall>j < length sel. UTXOs ! (idxs ! j) = sel ! j"
    by blast
  have "\<forall>j < length sel. u_publicKey (UTXOs ! (idxs ! j)) = k"
    using idxs(3) own by simp
  with idxs(1,2) show ?thesis by simp
qed

lemma makeTx_accepted:
  assumes wf: "wellformed UTXOs" and total: "safe_total UTXOs"
    and hon: "honest cr publicKey"
    and safe: "isSafeInteger amountSent"
    and made: "makeTx cr amountSent publicKey UTXOs = Inr (Some tx)"
    and change: "makeTx_change cr amountSent UTXOs \<noteq> 1"
  shows "fst (addTx cr tx [] UTXOs) = Inr True"
proof -
  define mine where "mine = filter (\<lambda>UTXO. u_publicKey UTXO = wallet_publicKey cr) UTXOs"
  obtain inputs amountInput where g: "gather amountSent mine ([], 0) = (inputs, amountInput)"
    by (cases "gather amountSent mine ([], 0)")
  define chg where "chg = amountChange amountInput amountSent (length inputs)"
  define outputs where "outputs = \<lparr>o_publicKey = publicKey, o_amount = amountSent\<rparr>
      # (if chg > 1 then [\<lparr>o_publicKey = wallet_publicKey cr, o_amount = chg\<rparr>] else [])"
  define h where "h = sha_tx cr inputs outputs"
  from makeTx_shape [OF made g [unfolded mine_def] chg_def outputs_def]
  have big: "2 < amountSent" and cov: "target amountSent (length inputs) \<le> amountInput"
    and tx: "tx = Tx (map (\<lambda>(uh, ui). \<lparr>i_hash = uh, i_index = ui,
                         i_signature = wallet_sign cr h\<rparr>) inputs) outputs h"
    by (simp_all add: h_def)
  from change g have c1: "chg \<noteq> 1" by (simp add: makeTx_change_def mine_def chg_def)
  from total have nn: "\<forall>U \<in> set UTXOs. 0 \<le> u_amount U"
    and tot: "sum_list (map u_amount UTXOs) \<le> 2 ^ 53 - 1"
    by (simp_all add: safe_total_def list_all_iff)
  have mnn: "\<forall>U \<in> set mine. 0 \<le> u_amount U" using nn by (simp add: mine_def)
  have "sum_list (map u_amount mine) \<le> sum_list (map u_amount UTXOs)"
    unfolding mine_def using nn by (rule sum_filter_le)
  with tot have mtot: "0 + sum_list (map u_amount mine) \<le> 2 ^ 53 - 1" by simp
  have pre: "(0::int) < amountSent + 1 + int (length ([]::(string \<times> int) list))"
    using big by simp
  have z: "(0::int) \<le> 0" by simp
  from gather_prefix [OF g pre big safe mnn z mtot] obtain n where n: "n \<le> length mine"
    "inputs = map utxo_key (take n mine)"
    "amountInput = sum_list (map u_amount (take n mine))"
    "amountSent + 1 + int (length inputs) \<le> amountInput \<longrightarrow>
       0 < n \<and> amountInput - u_amount (mine ! (n - 1)) < amountSent + int (length inputs)"
    by auto
  have "amountInput \<le> sum_list (map u_amount mine)"
    unfolding n(3) using mnn by (intro sum_take_le) simp
  with mtot have ai: "amountInput \<le> 2 ^ 53 - 1" by simp
  from cov target_test [OF big safe ai, of "length inputs"]
  have cover: "amountSent + 1 + int (length inputs) \<le> amountInput" by simp
  with n(4) have npos: "0 < n"
    by simp
  have chg_eq: "chg = amountInput - amountSent - 1 - int (length inputs)"
    unfolding chg_def by (rule change_exact [OF big cover ai])
  define sel where "sel = take n mine"
  have len: "length sel = n" "length inputs = n" using n(1,2) by (simp_all add: sel_def)
  from wf have dk: "distinct (map utxo_key UTXOs)" and
    all: "\<forall>U \<in> set UTXOs. hex_string 64 64 (u_hash U) \<and> (u_index U = 0 \<or> u_index U = 1) \<and>
                     isSafeInteger (u_amount U)"
    by (simp_all add: wellformed_def list_all_iff)
  from all have shape:
    "\<forall>U \<in> set UTXOs. hex_string 64 64 (u_hash U) \<and> (u_index U = 0 \<or> u_index U = 1)"
    by blast
  from selection_found [OF dk shape total sel_def [unfolded mine_def], of "wallet_sign cr h"]
  obtain idxs where idxs:
    "addTx_inputs UTXOs (map (signed_input (wallet_sign cr h)) sel) ([], 0, [])
       = Inr (idxs, sum_list (map u_amount sel), map utxo_key sel)"
    "length idxs = length sel"
    "\<forall>j < length sel. u_publicKey (UTXOs ! (idxs ! j)) = wallet_publicKey cr"
    by blast
  have ins: "map (\<lambda>(uh, ui). \<lparr>i_hash = uh, i_index = ui, i_signature = wallet_sign cr h\<rparr>) inputs
     = map (signed_input (wallet_sign cr h)) sel"
    by (simp add: n(2) sel_def signed_input_def utxo_key_def)
  from hon have sig: "\<forall>h. hex_string 20 144 (wallet_sign cr h) \<and>
               verify cr (wallet_publicKey cr) h (wallet_sign cr h) = Some True"
    by (simp add: honest_def)
  have sigs: "addTx_signatures cr UTXOs h (zip (map (signed_input (wallet_sign cr h)) sel) idxs) []
       = Inr (map (signed_input (wallet_sign cr h)) sel)"
    using signatures_accepted [OF sig idxs(2,3), of h "[]"] by simp
  from ai big have chi: "chg \<le> 2 ^ 53 - 1" by (simp add: chg_eq)
  have nonneg: "0 \<le> chg" using cover by (simp add: chg_eq)
  have ch: "chg = 0 \<or> (1 < chg \<and> isSafeInteger chg)"
    using nonneg c1 chi by (auto simp: isSafeInteger_def)
  have le: "amountSent + chg \<le> amountInput" by (simp add: chg_eq)
  have outs: "addTx_outputs cr outputs (amountInput, []) = Inr (amountInput - amountSent - chg, outputs)"
    unfolding outputs_def by (rule outputs_accepted [OF hon safe big ch le ai])
  have net: "amountInput - amountSent - chg = 1 + int (length sel)"
    by (simp add: chg_eq len)
  have lo: "\<not> length sel < 1" using npos len by simp
  have lout: "\<not> (length outputs < 1 \<or> length outputs > 2)" by (simp add: outputs_def)
  have sums: "sum_list (map u_amount sel) = amountInput" "map utxo_key sel = inputs"
    using n(2,3) by (simp_all add: sel_def)
  have v: "addTx_validate cr tx UTXOs
             = Inr (Tx (map (signed_input (wallet_sign cr h)) sel) outputs h, idxs)"
    unfolding tx ins addTx_validate_def
    using lo lout by (simp add: idxs(1) sums outs net sigs h_def [symmetric])
  show ?thesis by (simp add: addTx_def v)
qed

lemma honest_demo: "honest demo key2"
  by (simp add: honest_def demo_def key2_def hex_string_def list_all_iff is_hex_def)

lemma wellformed_utxoD: "wellformed [utxoD] \<and> safe_total [utxoD]"
  by (simp add: wellformed_def safe_total_def utxoD_def hex_string_def list_all_iff is_hex_def
      isSafeInteger_def)

lemma makeTx_accepted_example:
  "makeTx_change demo 4 [utxoD] = 0 \<and>
   makeTx demo 4 key2 [utxoD] = Inr (Some (Tx [spend utxoD] [pay key2 4] digestA)) \<and>
   fst (addTx demo (Tx [spend utxoD] [pay key2 4] digestA) [] [utxoD]) = Inr True"
proof -
  have c: "makeTx_change demo 4 [utxoD] = 0" by code_simp
  have tx: "makeTx demo 4 key2 [utxoD] = Inr (Some (Tx [spend utxoD] [pay key2 4] digestA))"
    by code_simp
  have s: "isSafeInteger 4" by (simp add: isSafeInteger_def)
  from wellformed_utxoD have w: "wellformed [utxoD]" and t: "safe_total [utxoD]" by simp_all
  from makeTx_accepted [OF w t honest_demo s tx] c tx show ?thesis by simp
qed

section \<open>Spending one UTXO\<close>

text \<open>
  When an accepted transaction has a single input, the resulting UTXO set is the given one
  without the referenced UTXO, followed by the new UTXOs.
\<close>

lemma addTx_single_input:
  assumes "addTx cr (Tx [inp] outputs h) block_txs UTXOs = (Inr ok, block_txs', UTXOs')"
  shows "\<exists>i. findIndex (refers inp) UTXOs = Some i \<and> i < length UTXOs \<and>
             UTXOs' = take i UTXOs @ drop (Suc i) UTXOs @ newUTXOs h outputs"
proof -
  from assms obtain validated idxs where
    v: "addTx_validate cr (Tx [inp] outputs h) UTXOs = Inr (validated, idxs)" and
    u: "UTXOs' = fold splice1 idxs UTXOs @ newUTXOs (tx_hash validated) (tx_outputs validated)"
    by (auto simp: addTx_def split: sum.splits prod.splits)
  from addTx_validate_same [OF v] have same: "validated = Tx [inp] outputs h" .
  from v obtain i where i: "findIndex (refers inp) UTXOs = Some i" and "idxs = [i]"
    by (auto simp: addTx_validate_def split: sum.splits prod.splits if_splits option.splits)
  with u same findIndex_find [OF i] show ?thesis by (simp add: splice1_def)
qed

section \<open>Where the code departs from the specification\<close>

text \<open>
  C7. The hash of 64 zero characters passes the validator's hash test and its expansion
  has 256 leading zero bits, but \<open>blockDifficulty\<close> returns -1 for it: \<open>indexOf\<close>
  finds no \<open>1\<close> in the expansion.
\<close>

theorem blockDifficulty_zero_hash:
  "hex_string 64 64 zero_hash \<and>
   leading_zero_bits zero_hash = 256 \<and>
   blockDifficulty \<lparr>time = t, txs = ts, nonce = n, hash = zero_hash\<rparr> = - 1"
proof -
  have "hex_string 64 64 zero_hash" by code_simp
  moreover have "leading_zero_bits zero_hash = 256" by code_simp
  moreover have "indexOf (binaryOf zero_hash) (CHR ''1'') = - 1" by code_simp
  ultimately show ?thesis by (simp add: blockDifficulty_def)
qed

text \<open>
  C1. The wallet owns \<open>utxoD\<close>, of amount 6, and sends 3: one input, change
  \<open>6 - 3 - 1 - 1 = 1\<close>. \<open>makeTx\<close> leaves the change output out and returns \<open>txD\<close>.
  \<open>addTx\<close> against the same UTXO set rejects \<open>txD\<close>: the inputs exceed the outputs by
  3, not by \<open>1 + 1\<close>.
\<close>

theorem makeTx_change_one_rejected:
  "makeTx demo 3 key2 [utxoD] = Inr (Some txD) \<and>
   addTx demo txD [] [utxoD] = (Inl BadNet, [], [utxoD])"
  by code_simp

text \<open>
  C2. \<open>txAB\<close> spends \<open>utxoA\<close> and \<open>utxoB\<close>, at positions 0 and 1 of the UTXO set
  \<open>[utxoA, utxoB, utxoC]\<close>. \<open>addTx\<close> accepts it and leaves the set
  \<open>[utxoB, new]\<close>: the second \<open>splice\<close> removes what is at position 1 after the first
  removal, which is \<open>utxoC\<close>, and the spent \<open>utxoB\<close> stays.
\<close>

theorem addTx_two_inputs_splice:
  "addTx demo txAB [] [utxoA, utxoB, utxoC]
     = (Inr True, [txAB],
        [utxoB, \<lparr>u_hash = digestA, u_index = 0, u_publicKey = key2, u_amount = 7\<rparr>])"
  by code_simp

lemma blockB_accepted:
  "fst (addBlock demo 0 blockB (genesisChain demo) confirmed) = Inr ()"
  by code_simp

text \<open>
  C4. The pool has accepted \<open>txA\<close> (claiming \<open>utxoA\<close>) and then \<open>txB\<close> (claiming
  \<open>utxoB\<close>). The block \<open>blockB\<close>, which a node whose UTXO set is \<open>confirmed\<close>
  accepts (\<open>blockB_accepted\<close>), confirms \<open>txB\<close>. \<open>removeBlockTxs\<close> removes \<open>txB\<close> from the pool's transactions, but
  releases the first entry of \<open>usedUTXOs\<close>, the claim of the surviving \<open>txA\<close>, and keeps
  the claim of the removed \<open>txB\<close>.
\<close>

theorem removeBlockTxs_releases_first_claim:
  "fst (snd (pool_addTx demo txA 0 [confirmed] emptyPool)) = poolA \<and>
   fst (snd (pool_addTx demo txB 0 [confirmed] poolA)) = poolAB \<and>
   removeBlockTxs blockB poolAB = Inr \<lparr>pool_txs = [txA], usedUTXOs = [utxoB]\<rparr>"
  by code_simp

end
